theory Spec2Isabelle
  imports Main "HOL-Library.Multiset"
begin

section \<open>NumPy arrays and Python errors\<close>

text \<open>
  The exceptions the code raises itself (\<open>ValueError\<close>, with its message) and the ones
  NumPy and Python raise under it: an index out of range, a conversion that is not
  possible, an integer too large for an int64 cell or for an index. \<open>ValueErrorOf text S\<close> is a
  \<open>ValueError\<close> whose message is the text followed by the set \<open>S\<close> of strings as
  Python prints a set, in an order of its own.
\<close>

datatype error =
  ValueError string | ValueErrorOf string "string set" | IndexError | TypeError | OverflowError

text \<open>
  An \<open>np.ndarray\<close>: its shape and its cells in row-major (C) order, as NumPy lays out
  the arrays this code builds. A well-formed array has as many cells as its shape says.
\<close>

record 'a ndarray =
  shape :: "nat list"
  elems :: "'a list"

definition ndim :: "'a ndarray \<Rightarrow> nat" where
  "ndim a = length (shape a)"

definition wf :: "'a ndarray \<Rightarrow> bool" where
  "wf a \<longleftrightarrow> length (elems a) = prod_list (shape a)"

text \<open>
  What the code asks of a cell depends on the array's dtype: \<open>x - 1\<close>, \<open>int(x)\<close>
  (which truncates a float towards zero and raises on nan and inf), \<open>x.astype(int)\<close>
  and the test \<open>x != 0\<close> of \<open>np.nonzero\<close>. The conversions are written once for
  every dtype; \<open>int_dtype\<close> is the dtype of a signed integer array. Its cells are
  unbounded integers: \<open>x - 1\<close> wraps an int64 at \<open>-2^63\<close> only, and the index it wraps
  to is out of range of every table and raises \<open>IndexError\<close>, as the index below
  \<open>-2^63\<close> does here. \<open>uint64_dtype\<close> is the dtype of an unsigned 64-bit array, its
  cells the integers of \<open>[0, 2^64)\<close>: \<open>x - 1\<close> wraps \<open>0\<close> to \<open>2^64 - 1\<close>, and
  \<open>astype(int)\<close> takes a cell from \<open>2^63\<close> on to the int64 of the same 64 bits.
\<close>

record 'a dtype =
  minus_one :: "'a \<Rightarrow> 'a"
  py_int :: "'a \<Rightarrow> error + int"
  astype_int :: "'a \<Rightarrow> int"
  nonzero :: "'a \<Rightarrow> bool"

definition int_dtype :: "int dtype" where
  "int_dtype = \<lparr>minus_one = (\<lambda>x. x - 1), py_int = Inr, astype_int = (\<lambda>x. x),
     nonzero = (\<lambda>x. x \<noteq> 0)\<rparr>"

definition uint64_dtype :: "int dtype" where
  "uint64_dtype = \<lparr>minus_one = (\<lambda>x. (x - 1) mod 2 ^ 64), py_int = Inr,
     astype_int = (\<lambda>x. if x < 2 ^ 63 then x else x - 2 ^ 64), nonzero = (\<lambda>x. x \<noteq> 0)\<rparr>"

text \<open>\<open>np.zeros(shape, dtype=int)\<close>\<close>

definition zeros :: "nat list \<Rightarrow> int ndarray" where
  "zeros shp = \<lparr>shape = shp, elems = replicate (prod_list shp) 0\<rparr>"

text \<open>\<open>a - 1\<close> and \<open>a.astype(int)\<close> work cell by cell and keep the shape.\<close>

definition map_array :: "('a \<Rightarrow> 'b) \<Rightarrow> 'a ndarray \<Rightarrow> 'b ndarray" where
  "map_array f a = \<lparr>shape = shape a, elems = map f (elems a)\<rparr>"

text \<open>
  \<open>a[i]\<close> for a natural \<open>i\<close> below the first dimension: the \<open>i\<close>-th sub-array along the
  first axis. Iterating over an array yields these in order; NumPy refuses to iterate
  over a 0-d array.
\<close>

definition item :: "'a ndarray \<Rightarrow> nat \<Rightarrow> 'a ndarray" where
  "item a i = (let m = prod_list (tl (shape a))
     in \<lparr>shape = tl (shape a), elems = take m (drop (i * m) (elems a))\<rparr>)"

definition iter :: "'a ndarray \<Rightarrow> error + 'a ndarray list" where
  "iter a = (case shape a of [] \<Rightarrow> Inl TypeError
     | n # ds \<Rightarrow> Inr (map (item a) [0..<n]))"

text \<open>
  NumPy takes an index to a C integer (\<open>intp\<close>, 64 bits) before it looks at the
  array. A Python integer in \<open>[2^63, 2^64)\<close> raises \<open>OverflowError\<close> there, one from
  \<open>2^64\<close> on or below \<open>-2^63\<close> raises \<open>IndexError\<close>; an index that is a C integer
  and out of range of its axis raises \<open>IndexError\<close> when it is checked. \<open>refusal i\<close>
  is the error of an index \<open>i\<close> that is refused.
\<close>

definition intp :: "int \<Rightarrow> bool" where
  "intp i \<longleftrightarrow> - (2 ^ 63) \<le> i \<and> i < 2 ^ 63"

definition refusal :: "int \<Rightarrow> error" where
  "refusal i = (if 2 ^ 63 \<le> i \<and> i < 2 ^ 64 then OverflowError else IndexError)"

text \<open>
  \<open>a[i]\<close> for a Python integer: a negative index counts from the end, an index outside
  \<open>[-n, n)\<close> and any index into a 0-d array are refused.
\<close>

definition getitem :: "'a ndarray \<Rightarrow> int \<Rightarrow> error + 'a ndarray" where
  "getitem a i = (case shape a of [] \<Rightarrow> Inl (refusal i)
     | n # ds \<Rightarrow> if - int n \<le> i \<and> i < int n then Inr (item a (nat (i mod int n)))
         else Inl (refusal i))"

text \<open>
  \<open>int(v)\<close> on an array or array scalar \<open>v\<close>: the conversion of its only cell; an
  array of any other size cannot be converted.
\<close>

definition int_of :: "'a dtype \<Rightarrow> 'a ndarray \<Rightarrow> error + int" where
  "int_of dt v = (case elems v of [x] \<Rightarrow> py_int dt x | _ \<Rightarrow> Inl TypeError)"

text \<open>Running a comprehension whose elements may raise: the first error wins.\<close>

fun sequence :: "(error + 'a) list \<Rightarrow> error + 'a list" where
  "sequence [] = Inr []"
| "sequence (x # xs) = (case x of Inl e \<Rightarrow> Inl e
     | Inr v \<Rightarrow> (case sequence xs of Inl e \<Rightarrow> Inl e | Inr vs \<Rightarrow> Inr (v # vs)))"

text \<open>\<open>tuple(int(i) for i in case)\<close>\<close>

definition int_tuple :: "'a dtype \<Rightarrow> 'a ndarray \<Rightarrow> error + int list" where
  "int_tuple dt c = (case iter c of Inl e \<Rightarrow> Inl e
     | Inr vs \<Rightarrow> sequence (map (int_of dt) vs))"

text \<open>
  Indexing a table with a tuple of Python integers, \<open>table[idx]\<close>, in NumPy's two
  passes. The first takes every index of the tuple to a C integer, in the order of the
  tuple, and raises at the first that is none. A dimension of an array is below
  \<open>2^63\<close>, so that an index within \<open>[-d, d)\<close> of its axis is a C integer; the pass is
  written for the other indices.
\<close>

fun index_conversion :: "nat list \<Rightarrow> int list \<Rightarrow> error option" where
  "index_conversion ds [] = None"
| "index_conversion [] (i # is) =
     (if intp i then index_conversion [] is else Some (refusal i))"
| "index_conversion (d # ds) (i # is) =
     (if (- int d \<le> i \<and> i < int d) \<or> intp i then index_conversion ds is
      else Some (refusal i))"

text \<open>
  The second pass checks each index against its axis, where a negative one wraps once;
  more indices than axes raise. The result is the offset of the first addressed cell
  and the number of cells addressed: one for a full index, a whole sub-array for a
  shorter one.
\<close>

fun locate :: "nat list \<Rightarrow> int list \<Rightarrow> error + (nat \<times> nat)" where
  "locate ds [] = Inr (0, prod_list ds)"
| "locate [] (i # is) = Inl IndexError"
| "locate (d # ds) (i # is) =
     (if - int d \<le> i \<and> i < int d
      then (case locate ds is of Inl e \<Rightarrow> Inl e
        | Inr (off, cnt) \<Rightarrow> Inr (nat (i mod int d) * prod_list ds + off, cnt))
      else Inl IndexError)"

definition resolve :: "nat list \<Rightarrow> int list \<Rightarrow> error + (nat \<times> nat)" where
  "resolve ds is = (case index_conversion ds is of Some e \<Rightarrow> Inl e
     | None \<Rightarrow> locate ds is)"

text \<open>Applying \<open>f\<close> to the cells \<open>off, ..., off + cnt - 1\<close> of a list.\<close>

definition update_range :: "(int \<Rightarrow> int) \<Rightarrow> nat \<Rightarrow> nat \<Rightarrow> int list \<Rightarrow> int list" where
  "update_range f off cnt xs =
     take off xs @ map f (take cnt (drop off xs)) @ drop (off + cnt) xs"

text \<open>
  \<open>table[idx] += 1\<close>. The cells are unbounded here: an int64 cell overflows only after
  \<open>2^63 - 1\<close> increments, more rows than an array holds.
\<close>

definition iadd :: "int ndarray \<Rightarrow> int list \<Rightarrow> int \<Rightarrow> error + int ndarray" where
  "iadd table idx k = (case resolve (shape table) idx of Inl e \<Rightarrow> Inl e
     | Inr (off, cnt) \<Rightarrow> Inr (table\<lparr>elems := update_range (\<lambda>x. x + k) off cnt (elems table)\<rparr>))"

text \<open>
  \<open>table[idx] = v\<close> for a Python integer \<open>v\<close>: NumPy raises \<open>OverflowError\<close> when
  \<open>v\<close> does not fit the int64 cell.
\<close>

definition setitem :: "int ndarray \<Rightarrow> int list \<Rightarrow> int \<Rightarrow> error + int ndarray" where
  "setitem table idx v = (case resolve (shape table) idx of Inl e \<Rightarrow> Inl e
     | Inr (off, cnt) \<Rightarrow>
         if - (2 ^ 63) \<le> v \<and> v < 2 ^ 63
         then Inr (table\<lparr>elems := update_range (\<lambda>x. v) off cnt (elems table)\<rparr>)
         else Inl OverflowError)"

text \<open>Reading \<open>table[idx]\<close> with a full index: the cell addressed.\<close>

definition cell :: "int ndarray \<Rightarrow> int list \<Rightarrow> error + int" where
  "cell table idx = (case resolve (shape table) idx of Inl e \<Rightarrow> Inl e
     | Inr (off, cnt) \<Rightarrow> if cnt = 1 \<and> off < length (elems table)
         then Inr (elems table ! off) else Inl TypeError)"

section \<open>Case form\<close>

text \<open>The loop \<open>for case in data: idx = ...; table[idx] += 1\<close>.\<close>

fun count_cases :: "'a dtype \<Rightarrow> int ndarray \<Rightarrow> 'a ndarray list \<Rightarrow> error + int ndarray" where
  "count_cases dt table [] = Inr table"
| "count_cases dt table (c # cs) = (case int_tuple dt c of Inl e \<Rightarrow> Inl e
     | Inr idx \<Rightarrow> (case iadd table idx 1 of Inl e \<Rightarrow> Inl e
         | Inr table' \<Rightarrow> count_cases dt table' cs))"

definition process_case_form :: "'a dtype \<Rightarrow> 'a ndarray \<Rightarrow> nat list \<Rightarrow> error + int ndarray" where
  "process_case_form dt data shp =
     (if ndim data \<noteq> 2 then Inl (ValueError ''Case form data must be 2D array'')
      else if shape data ! 1 \<noteq> length shp
        then Inl (ValueError (''Number of variables doesn'' @ [CHR 0x27] @ ''t match shape''))
      else (let data' = map_array (minus_one dt) data;
                table = zeros shp
            in case iter data' of Inl e \<Rightarrow> Inl e
               | Inr cases \<Rightarrow> count_cases dt table cases))"

section \<open>Frequency form\<close>

text \<open>
  The rows of a 2-D array, as lists of cells. The slices \<open>a[:, :-1]\<close> and \<open>a[:, -1]\<close>
  are taken of an array that has passed the checks for two dimensions and one column at
  least; they drop, and keep, the last cell of each row.
\<close>

definition rows :: "'a ndarray \<Rightarrow> 'a list list" where
  "rows a = (case shape a of
       [n, m] \<Rightarrow> map (\<lambda>i. take m (drop (i * m) (elems a))) [0..<n]
     | _ \<Rightarrow> [])"

definition but_last_column :: "'a ndarray \<Rightarrow> 'a ndarray" where
  "but_last_column a =
     \<lparr>shape = [shape a ! 0, shape a ! 1 - 1], elems = concat (map butlast (rows a))\<rparr>"

definition last_column :: "'a ndarray \<Rightarrow> 'a ndarray" where
  "last_column a = \<lparr>shape = [shape a ! 0], elems = map last (rows a)\<rparr>"

text \<open>The loop \<open>for case, freq in zip(cases, freqs): idx = ...; table[idx] = int(freq)\<close>.\<close>

fun fill_cells ::
  "'a dtype \<Rightarrow> int ndarray \<Rightarrow> ('a ndarray \<times> 'a ndarray) list \<Rightarrow> error + int ndarray" where
  "fill_cells dt table [] = Inr table"
| "fill_cells dt table ((c, freq) # rest) = (case int_tuple dt c of Inl e \<Rightarrow> Inl e
     | Inr idx \<Rightarrow> (case int_of dt freq of Inl e \<Rightarrow> Inl e
         | Inr v \<Rightarrow> (case setitem table idx v of Inl e \<Rightarrow> Inl e
             | Inr table' \<Rightarrow> fill_cells dt table' rest)))"

definition process_frequency_form ::
  "'a dtype \<Rightarrow> 'a ndarray \<Rightarrow> nat list \<Rightarrow> error + int ndarray" where
  "process_frequency_form dt data shp =
     (if ndim data \<noteq> 2 then Inl (ValueError ''Frequency form data must be 2D array'')
      else if shape data ! 1 \<noteq> length shp + 1
        then Inl (ValueError
          ''Frequency form should have n+1 columns (n variables + frequency)'')
      else (let cases = map_array (minus_one dt) (but_last_column data);
                freqs = last_column data;
                table = zeros shp
            in case iter cases of Inl e \<Rightarrow> Inl e
               | Inr cs \<Rightarrow> (case iter freqs of Inl e \<Rightarrow> Inl e
                   | Inr fs \<Rightarrow> fill_cells dt table (zip cs fs))))"

section \<open>Table form\<close>

text \<open>
  The text Python prints for a shape: \<open>()\<close>, \<open>(3,)\<close>, \<open>(2, 3)\<close>, with each
  dimension in decimal.
\<close>

definition digit :: "nat \<Rightarrow> char" where
  "digit n = ''0123456789'' ! n"

fun str_nat :: "nat \<Rightarrow> string" where
  "str_nat n = (if n < 10 then [digit n] else str_nat (n div 10) @ [digit (n mod 10)])"

declare str_nat.simps [simp del]

fun join :: "string \<Rightarrow> string list \<Rightarrow> string" where
  "join sep [] = []"
| "join sep [x] = x"
| "join sep (x # y # ys) = x @ sep @ join sep (y # ys)"

definition str_tuple :: "nat list \<Rightarrow> string" where
  "str_tuple xs = (case xs of [x] \<Rightarrow> ''('' @ str_nat x @ '',)''
     | _ \<Rightarrow> ''('' @ join '', '' (map str_nat xs) @ '')'')"

definition process_table_form ::
  "'a dtype \<Rightarrow> 'a ndarray \<Rightarrow> nat list \<Rightarrow> error + int ndarray" where
  "process_table_form dt data shp =
     (if shape data \<noteq> shp
      then Inl (ValueError (''Table shape '' @ str_tuple (shape data) @ '' doesn''
        @ [CHR 0x27] @ ''t match specified shape '' @ str_tuple shp))
      else Inr (map_array (astype_int dt) data))"

section \<open>Table to case form\<close>

text \<open>
  The index tuple of the cell at a row-major offset. \<open>np.nonzero\<close> lists the cells
  that are not zero in row-major order, one index array per axis;
  \<open>zip(zip(*indices), counts)\<close> pairs each such cell's index tuple with its count. NumPy
  takes no \<open>nonzero\<close> of a 0-d array (\<open>ValueError\<close> since NumPy 2.1, its message
  cut short here; before, the indexing that follows raised \<open>IndexError\<close>).
\<close>

fun unravel :: "nat list \<Rightarrow> nat \<Rightarrow> nat list" where
  "unravel [] k = []"
| "unravel (d # ds) k = (k div prod_list ds) # unravel ds (k mod prod_list ds)"

definition nonzero_cells :: "'a dtype \<Rightarrow> 'a ndarray \<Rightarrow> (nat list \<times> 'a) list" where
  "nonzero_cells dt a =
     map (\<lambda>k. (unravel (shape a) k, elems a ! k))
       (filter (\<lambda>k. nonzero dt (elems a ! k)) [0..<length (elems a)])"

text \<open>
  The loop \<open>cases.extend([list(idx)] * int(count))\<close>: a list times a number that is
  not positive is empty.
\<close>

fun extend_cases ::
  "'a dtype \<Rightarrow> int list list \<Rightarrow> (nat list \<times> 'a) list \<Rightarrow> error + int list list" where
  "extend_cases dt cases [] = Inr cases"
| "extend_cases dt cases ((idx, cnt) # rest) = (case py_int dt cnt of Inl e \<Rightarrow> Inl e
     | Inr n \<Rightarrow> extend_cases dt (cases @ replicate (nat n) (map int idx)) rest)"

text \<open>
  \<open>np.array(cases)\<close> of a list of rows of one length: an empty list gives the 1-D
  array of shape \<open>(0,)\<close>.
\<close>

definition np_array :: "int list list \<Rightarrow> int ndarray" where
  "np_array cases = (case cases of [] \<Rightarrow> \<lparr>shape = [0], elems = []\<rparr>
     | c # cs \<Rightarrow> \<lparr>shape = [length cases, length c], elems = concat cases\<rparr>)"

definition gen_contingency_to_case_form :: "'a dtype \<Rightarrow> 'a ndarray \<Rightarrow> error + int ndarray" where
  "gen_contingency_to_case_form dt contingency_table =
     (if shape contingency_table = []
      then Inl (ValueError ''Calling nonzero on 0d arrays is not allowed.'')
      else (case extend_cases dt [] (nonzero_cells dt contingency_table) of Inl e \<Rightarrow> Inl e
        | Inr cases \<Rightarrow> Inr (np_array cases)))"

section \<open>Case form to table, with an axis order\<close>

text \<open>\<open>idx[axis] = v\<close> on a Python list: a negative position counts from the end.\<close>

definition list_setitem :: "'b list \<Rightarrow> int \<Rightarrow> 'b \<Rightarrow> error + 'b list" where
  "list_setitem xs i v = (let n = int (length xs)
     in if - n \<le> i \<and> i < n then Inr (xs[nat (i mod n) := v]) else Inl IndexError)"

text \<open>The loop \<open>for i, axis in enumerate(axis_order): idx[axis] = int(case[i])\<close>.\<close>

fun fill_index ::
  "'a dtype \<Rightarrow> 'a ndarray \<Rightarrow> int list \<Rightarrow> nat \<Rightarrow> int list \<Rightarrow> error + int list" where
  "fill_index dt c idx i [] = Inr idx"
| "fill_index dt c idx i (axis # rest) = (case getitem c (int i) of Inl e \<Rightarrow> Inl e
     | Inr v \<Rightarrow> (case int_of dt v of Inl e \<Rightarrow> Inl e
         | Inr n \<Rightarrow> (case list_setitem idx axis n of Inl e \<Rightarrow> Inl e
             | Inr idx' \<Rightarrow> fill_index dt c idx' (Suc i) rest)))"

definition get_full_index :: "'a dtype \<Rightarrow> nat \<Rightarrow> 'a ndarray \<Rightarrow> int list \<Rightarrow> error + int list" where
  "get_full_index dt n_axes c axis_order = fill_index dt c (replicate n_axes 0) 0 axis_order"

text \<open>The loop \<open>for case in ...: idx = _get_full_index(case, axis_order); table[idx] += 1\<close>.\<close>

fun accumulate ::
  "'a dtype \<Rightarrow> nat \<Rightarrow> int list \<Rightarrow> int ndarray \<Rightarrow> 'a ndarray list \<Rightarrow> error + int ndarray" where
  "accumulate dt n_axes axis_order table [] = Inr table"
| "accumulate dt n_axes axis_order table (c # cs) =
     (case get_full_index dt n_axes c axis_order of Inl e \<Rightarrow> Inl e
      | Inr idx \<Rightarrow> (case iadd table idx 1 of Inl e \<Rightarrow> Inl e
          | Inr table' \<Rightarrow> accumulate dt n_axes axis_order table' cs))"

text \<open>The outer loop \<open>for batch in cases\<close> around it.\<close>

fun accumulate_batches ::
  "'a dtype \<Rightarrow> nat \<Rightarrow> int list \<Rightarrow> int ndarray \<Rightarrow> 'a ndarray list \<Rightarrow> error + int ndarray" where
  "accumulate_batches dt n_axes axis_order table [] = Inr table"
| "accumulate_batches dt n_axes axis_order table (batch # batches) =
     (case iter batch of Inl e \<Rightarrow> Inl e
      | Inr cs \<Rightarrow> (case accumulate dt n_axes axis_order table cs of Inl e \<Rightarrow> Inl e
          | Inr table' \<Rightarrow> accumulate_batches dt n_axes axis_order table' batches))"

text \<open>
  \<open>axis_order\<close> is \<open>None\<close> or a list of integers. The default reads
  \<open>cases.shape[1]\<close>, which a 0-d or 1-D array does not have.
\<close>

definition default_axis_order :: "'a ndarray \<Rightarrow> int list option \<Rightarrow> error + int list" where
  "default_axis_order cases axis_order = (case axis_order of
       None \<Rightarrow> if ndim cases < 2 then Inl IndexError
               else Inr (map int [0..<shape cases ! 1])
     | Some ao \<Rightarrow> Inr ao)"

definition gen_case_form_to_contingency ::
  "'a dtype \<Rightarrow> 'a ndarray \<Rightarrow> nat list \<Rightarrow> int list option \<Rightarrow> error + int ndarray" where
  "gen_case_form_to_contingency dt cases shp axis_order =
     (case default_axis_order cases axis_order of Inl e \<Rightarrow> Inl e
      | Inr ao \<Rightarrow>
          (let table = zeros shp;
               n_axes = length shp
           in if ndim cases = 3
              then (case iter cases of Inl e \<Rightarrow> Inl e
                | Inr batches \<Rightarrow> accumulate_batches dt n_axes ao table batches)
              else (case iter cases of Inl e \<Rightarrow> Inl e
                | Inr cs \<Rightarrow> accumulate dt n_axes ao table cs)))"

section \<open>Category mapping\<close>

text \<open>
  The arrays \<open>_apply_category_mapping\<close> is given: a numeric array (\<open>dtype.kind\<close> one of
  \<open>i\<close>, \<open>f\<close>, \<open>u\<close>), or an array of Python objects of two dimensions, as a data frame
  with a column of labels gives it, whose cells are strings and numbers.
\<close>

datatype 'a obj = PyStr string | PyInt int | PyFloat 'a

record 'a objects =
  n_rows :: nat
  n_cols :: nat
  objs :: "'a obj list"

datatype 'a pydata = Numeric "'a ndarray" | Objects "'a objects"

text \<open>
  Python's \<open>float(x)\<close> on an integer and on a string: the float, or the exception raised
  (\<open>OverflowError\<close> for an integer too large, \<open>ValueError\<close> for a string that is no
  number).
\<close>

record 'a float_ops =
  float_of_int :: "int \<Rightarrow> error + 'a"
  float_of_str :: "string \<Rightarrow> error + 'a"

text \<open>
  \<open>value.strip()\<close>: the whitespace of Python among the code points below 256, which is
  what a \<open>char\<close> holds.
\<close>

definition is_space :: "char \<Rightarrow> bool" where
  "is_space c \<longleftrightarrow> (let n = (of_char c :: nat)
     in (9 \<le> n \<and> n \<le> 13) \<or> (28 \<le> n \<and> n \<le> 32) \<or> n = 133 \<or> n = 160)"

definition strip :: "string \<Rightarrow> string" where
  "strip s = rev (dropWhile is_space (rev (dropWhile is_space s)))"

text \<open>The helper \<open>_map_category(value, var_map)\<close>.\<close>

definition map_category :: "'a obj \<Rightarrow> (string \<rightharpoonup> int) \<Rightarrow> 'a obj" where
  "map_category value var_map = (case value of
       PyStr s \<Rightarrow> (let v = strip s in case var_map v of Some n \<Rightarrow> PyInt n | None \<Rightarrow> PyStr v)
     | _ \<Rightarrow> value)"

text \<open>
  \<open>var_list[i] if var_list else str(i)\<close> and \<open>len(var_list) if var_list else n_cols\<close>:
  an empty list counts as none.
\<close>

definition var_name :: "string list option \<Rightarrow> nat \<Rightarrow> string" where
  "var_name var_list i = (case var_list of None \<Rightarrow> str_nat i | Some [] \<Rightarrow> str_nat i
     | Some vl \<Rightarrow> vl ! i)"

definition n_vars :: "string list option \<Rightarrow> nat \<Rightarrow> nat" where
  "n_vars var_list n = (case var_list of None \<Rightarrow> n | Some [] \<Rightarrow> n | Some vl \<Rightarrow> length vl)"

text \<open>
  Reading \<open>data[:, i]\<close> and assigning \<open>result[:, i] = values\<close>: NumPy raises
  \<open>IndexError\<close> for a column the array does not have.
\<close>

definition get_column :: "'a objects \<Rightarrow> nat \<Rightarrow> error + 'a obj list" where
  "get_column a i = (if i < n_cols a
     then Inr (map (\<lambda>r. objs a ! (r * n_cols a + i)) [0..<n_rows a])
     else Inl IndexError)"

definition set_column :: "'a objects \<Rightarrow> nat \<Rightarrow> 'a obj list \<Rightarrow> error + 'a objects" where
  "set_column a i vals = (if i < n_cols a
     then Inr (a\<lparr>objs := map (\<lambda>k. if k mod n_cols a = i then vals ! (k div n_cols a)
                                  else objs a ! k) [0..<length (objs a)]\<rparr>)
     else Inl IndexError)"

text \<open>
  The loop \<open>for i in range(n_vars)\<close>. What \<open>_map_category\<close> does to strings and numbers
  raises neither \<open>ValueError\<close> nor \<open>TypeError\<close>, so the \<open>except\<close> around the assignment
  has nothing to catch.
\<close>

fun map_columns ::
  "(string \<rightharpoonup> (string \<rightharpoonup> int)) \<Rightarrow> string list option \<Rightarrow> 'a objects \<Rightarrow> 'a objects \<Rightarrow> nat list
     \<Rightarrow> error + 'a objects" where
  "map_columns category_map var_list data result [] = Inr result"
| "map_columns category_map var_list data result (i # is) =
     (case category_map (var_name var_list i) of
        None \<Rightarrow> map_columns category_map var_list data result is
      | Some var_map \<Rightarrow> (case get_column data i of Inl e \<Rightarrow> Inl e
          | Inr xs \<Rightarrow>
              (case set_column result i (map (\<lambda>x. map_category x var_map) xs) of
                 Inl e \<Rightarrow> Inl e
               | Inr result' \<Rightarrow> map_columns category_map var_list data result' is)))"

text \<open>
  \<open>result.astype(float)\<close> converts the cells in row-major order; the first cell that
  cannot be converted raises.
\<close>

definition to_float :: "'a float_ops \<Rightarrow> 'a obj \<Rightarrow> error + 'a" where
  "to_float fo x = (case x of PyStr s \<Rightarrow> float_of_str fo s | PyInt n \<Rightarrow> float_of_int fo n
     | PyFloat f \<Rightarrow> Inr f)"

definition astype_float :: "'a float_ops \<Rightarrow> 'a objects \<Rightarrow> error + 'a ndarray" where
  "astype_float fo a = (case sequence (map (to_float fo) (objs a)) of Inl e \<Rightarrow> Inl e
     | Inr xs \<Rightarrow> Inr \<lparr>shape = [n_rows a, n_cols a], elems = xs\<rparr>)"

text \<open>
  \<open>except ValueError\<close>, \<open>isinstance(x, (int, float))\<close>, and the strings among the cells
  the mask selects: the cells that are neither \<open>int\<close> nor \<open>float\<close> are the strings.
\<close>

definition is_ValueError :: "error \<Rightarrow> bool" where
  "is_ValueError e = (case e of ValueError m \<Rightarrow> True | ValueErrorOf m S \<Rightarrow> True | _ \<Rightarrow> False)"

definition is_int_or_float :: "'a obj \<Rightarrow> bool" where
  "is_int_or_float x = (case x of PyStr s \<Rightarrow> False | _ \<Rightarrow> True)"

fun strings :: "'a obj list \<Rightarrow> string list" where
  "strings [] = []"
| "strings (PyStr s # xs) = s # strings xs"
| "strings (x # xs) = strings xs"

definition apply_category_mapping ::
  "'a float_ops \<Rightarrow> 'a pydata \<Rightarrow> (string \<rightharpoonup> (string \<rightharpoonup> int)) \<Rightarrow> string list option \<Rightarrow> string
     \<Rightarrow> error + 'a ndarray" where
  "apply_category_mapping fo data category_map var_list data_form =
     (case data of
        Numeric a \<Rightarrow> Inr a
      | Objects a \<Rightarrow>
          (case (if data_form \<in> set [''case_form'', ''frequency_form'']
                 then map_columns category_map var_list a a [0..<n_vars var_list (n_cols a)]
                 else Inr a) of
             Inl e \<Rightarrow> Inl e
           | Inr result \<Rightarrow>
               (case astype_float fo result of
                  Inr r \<Rightarrow> Inr r
                | Inl e \<Rightarrow>
                    if is_ValueError e
                    then (let bad_values = filter (\<lambda>x. \<not> is_int_or_float x) (objs result)
                          in if bad_values \<noteq> []
                             then Inl (ValueErrorOf ''Could not convert categories to numeric: ''
                               (set (strings bad_values)))
                             else Inl e)
                    else Inl e)))"

text \<open>
  An instance of \<open>float\<close> for running the code on examples. A float is written as the
  conversion that made it, without its value. \<open>float(n)\<close> overflows from
  \<open>2^1024 - 2^970\<close> on. \<open>float(s)\<close> accepts, between whitespace, an optional sign and
  then \<open>inf\<close>, \<open>infinity\<close> or \<open>nan\<close> in any case, or digits with an optional point and
  an optional exponent, an underscore being allowed between two digits. The whitespace
  \<open>float\<close> skips is less than that of \<open>strip\<close>: the separators 28 to 31 stay.
\<close>

datatype pyfloat = FloatOfInt int | FloatOfStr string

definition is_digit :: "char \<Rightarrow> bool" where
  "is_digit c \<longleftrightarrow> c \<in> set ''0123456789''"

definition is_float_space :: "char \<Rightarrow> bool" where
  "is_float_space c \<longleftrightarrow> (let n = (of_char c :: nat)
     in (9 \<le> n \<and> n \<le> 13) \<or> n = 32 \<or> n = 133 \<or> n = 160)"

definition to_lower :: "char \<Rightarrow> char" where
  "to_lower c = (let n = (of_char c :: nat) in if 65 \<le> n \<and> n \<le> 90 then char_of (n + 32) else c)"

fun underscores_ok :: "char option \<Rightarrow> string \<Rightarrow> bool" where
  "underscores_ok prev [] = (prev \<noteq> Some (CHR ''_''))"
| "underscores_ok prev (c # cs) =
     ((if c = CHR ''_'' then (case prev of Some p \<Rightarrow> is_digit p | None \<Rightarrow> False)
       else prev \<noteq> Some (CHR ''_'') \<or> is_digit c)
      \<and> underscores_ok (Some c) cs)"

definition drop_sign :: "string \<Rightarrow> string" where
  "drop_sign s = (case s of c # r \<Rightarrow> if c = CHR ''+'' \<or> c = CHR ''-'' then r else s | [] \<Rightarrow> s)"

definition is_exponent :: "string \<Rightarrow> bool" where
  "is_exponent s = (case s of [] \<Rightarrow> True
     | e # r \<Rightarrow> (e = CHR ''e'' \<or> e = CHR ''E'')
         \<and> drop_sign r \<noteq> [] \<and> list_all is_digit (drop_sign r))"

definition is_decimal :: "string \<Rightarrow> bool" where
  "is_decimal s = (let ip = takeWhile is_digit s; r1 = dropWhile is_digit s;
       fp = (case r1 of c # r \<Rightarrow> if c = CHR ''.'' then takeWhile is_digit r else [] | [] \<Rightarrow> []);
       r2 = (case r1 of c # r \<Rightarrow> if c = CHR ''.'' then dropWhile is_digit r else r1 | [] \<Rightarrow> r1)
     in (ip \<noteq> [] \<or> fp \<noteq> []) \<and> is_exponent r2)"

definition is_float_literal :: "string \<Rightarrow> bool" where
  "is_float_literal s =
     (let t = rev (dropWhile is_float_space (rev (dropWhile is_float_space s)));
          v = drop_sign (filter (\<lambda>c. c \<noteq> CHR ''_'') t)
      in underscores_ok None t
         \<and> (map to_lower v \<in> set [''inf'', ''infinity'', ''nan''] \<or> is_decimal v))"

definition py_float_ops :: "pyfloat float_ops" where
  "py_float_ops = \<lparr>
     float_of_int = (\<lambda>n. if \<bar>n\<bar> < 2 ^ 1024 - 2 ^ 970 then Inr (FloatOfInt n)
        else Inl OverflowError),
     float_of_str = (\<lambda>s. if is_float_literal s then Inr (FloatOfStr s)
        else Inl (ValueError (''could not convert string to float: '' @ [CHR 0x27] @ s
          @ [CHR 0x27])))\<rparr>"

section \<open>The converters on a store of arrays\<close>

text \<open>
  An array is an object: the caller holds it by reference, and the code could write to
  the array it is given. Here a store is the list of the arrays allocated so far, a
  reference is a position in it, and every statement that makes an array (\<open>data - 1\<close>,
  \<open>np.zeros\<close>, \<open>copy\<close>, \<open>astype\<close>) allocates, while \<open>table[idx] += 1\<close>,
  \<open>table[idx] = v\<close> and \<open>result[:, i] = ...\<close> write in place. An array is a numeric
  data array, an array of objects or an integer table. A function is given the reference
  of its \<open>data\<close> and returns a reference, or an error, and the store it leaves; a
  reference that does not hold data of the kind the function reads is refused.
\<close>

datatype 'a array = Num "'a ndarray" | Obj "'a objects" | Tab "int ndarray"

type_synonym 'a store = "'a array list"

definition lookup :: "'a store \<Rightarrow> nat \<Rightarrow> 'a array option" where
  "lookup s r = (if r < length s then Some (s ! r) else None)"

definition alloc :: "'a array \<Rightarrow> 'a store \<Rightarrow> nat \<times> 'a store" where
  "alloc x s = (length s, s @ [x])"

text \<open>
  \<open>_process_case_form\<close>: \<open>data = data - 1\<close> binds the name to a new array, and the loop
  reads the row \<open>i\<close> of that array and writes to the table, both as the store has them
  at that time.
\<close>

fun count_cases_st ::
  "'a dtype \<Rightarrow> nat \<Rightarrow> nat \<Rightarrow> nat list \<Rightarrow> 'a store \<Rightarrow> (error + nat) \<times> 'a store" where
  "count_cases_st dt data table [] s = (Inr table, s)"
| "count_cases_st dt data table (i # is) s =
     (case (lookup s data, lookup s table) of
        (Some (Num d), Some (Tab t)) \<Rightarrow>
          (case int_tuple dt (item d i) of Inl e \<Rightarrow> (Inl e, s)
           | Inr idx \<Rightarrow> (case iadd t idx 1 of Inl e \<Rightarrow> (Inl e, s)
               | Inr t' \<Rightarrow> count_cases_st dt data table is (s[table := Tab t'])))
      | _ \<Rightarrow> (Inl TypeError, s))"

definition process_case_form_st ::
  "'a dtype \<Rightarrow> nat \<Rightarrow> nat list \<Rightarrow> 'a store \<Rightarrow> (error + nat) \<times> 'a store" where
  "process_case_form_st dt data shp s =
     (case lookup s data of
        Some (Num d) \<Rightarrow>
          if ndim d \<noteq> 2 then (Inl (ValueError ''Case form data must be 2D array''), s)
          else if shape d ! 1 \<noteq> length shp
            then (Inl (ValueError (''Number of variables doesn'' @ [CHR 0x27]
              @ ''t match shape'')), s)
          else (let (data', s1) = alloc (Num (map_array (minus_one dt) d)) s;
                    (table, s2) = alloc (Tab (zeros shp)) s1
                in count_cases_st dt data' table [0..<shape d ! 0] s2)
      | _ \<Rightarrow> (Inl TypeError, s))"

text \<open>
  \<open>_process_frequency_form\<close>: \<open>cases\<close> is a new array, \<open>freqs = data[:, -1]\<close> is a view
  of the caller's array, read through \<open>data\<close> in every turn of the loop.
\<close>

fun fill_cells_st ::
  "'a dtype \<Rightarrow> nat \<Rightarrow> nat \<Rightarrow> nat \<Rightarrow> nat list \<Rightarrow> 'a store \<Rightarrow> (error + nat) \<times> 'a store" where
  "fill_cells_st dt cases data table [] s = (Inr table, s)"
| "fill_cells_st dt cases data table (i # is) s =
     (case (lookup s cases, lookup s data, lookup s table) of
        (Some (Num c), Some (Num d), Some (Tab t)) \<Rightarrow>
          (case int_tuple dt (item c i) of Inl e \<Rightarrow> (Inl e, s)
           | Inr idx \<Rightarrow> (case int_of dt (item (last_column d) i) of Inl e \<Rightarrow> (Inl e, s)
               | Inr v \<Rightarrow> (case setitem t idx v of Inl e \<Rightarrow> (Inl e, s)
                   | Inr t' \<Rightarrow> fill_cells_st dt cases data table is (s[table := Tab t']))))
      | _ \<Rightarrow> (Inl TypeError, s))"

definition process_frequency_form_st ::
  "'a dtype \<Rightarrow> nat \<Rightarrow> nat list \<Rightarrow> 'a store \<Rightarrow> (error + nat) \<times> 'a store" where
  "process_frequency_form_st dt data shp s =
     (case lookup s data of
        Some (Num d) \<Rightarrow>
          if ndim d \<noteq> 2 then (Inl (ValueError ''Frequency form data must be 2D array''), s)
          else if shape d ! 1 \<noteq> length shp + 1
            then (Inl (ValueError
              ''Frequency form should have n+1 columns (n variables + frequency)''), s)
          else (let (cases, s1) = alloc (Num (map_array (minus_one dt) (but_last_column d))) s;
                    (table, s2) = alloc (Tab (zeros shp)) s1
                in fill_cells_st dt cases data table [0..<shape d ! 0] s2)
      | _ \<Rightarrow> (Inl TypeError, s))"

text \<open>\<open>_process_table_form\<close>: \<open>data.astype(int)\<close> is a new array.\<close>

definition process_table_form_st ::
  "'a dtype \<Rightarrow> nat \<Rightarrow> nat list \<Rightarrow> 'a store \<Rightarrow> (error + nat) \<times> 'a store" where
  "process_table_form_st dt data shp s =
     (case lookup s data of
        Some (Num d) \<Rightarrow>
          if shape d \<noteq> shp
          then (Inl (ValueError (''Table shape '' @ str_tuple (shape d) @ '' doesn''
            @ [CHR 0x27] @ ''t match specified shape '' @ str_tuple shp)), s)
          else (let (table, s1) = alloc (Tab (map_array (astype_int dt) d)) s
                in (Inr table, s1))
      | _ \<Rightarrow> (Inl TypeError, s))"

text \<open>
  \<open>_apply_category_mapping\<close>: a numeric array is returned as it is, the same object.
  Otherwise \<open>result = data.copy()\<close>, each mapped column is read from \<open>data\<close> and written
  to \<open>result\<close>, and \<open>result.astype(float)\<close> is a third array.
\<close>

fun map_columns_st ::
  "(string \<rightharpoonup> (string \<rightharpoonup> int)) \<Rightarrow> string list option \<Rightarrow> nat \<Rightarrow> nat \<Rightarrow> nat list \<Rightarrow> 'a store
     \<Rightarrow> (error + nat) \<times> 'a store" where
  "map_columns_st category_map var_list data result [] s = (Inr result, s)"
| "map_columns_st category_map var_list data result (i # is) s =
     (case category_map (var_name var_list i) of
        None \<Rightarrow> map_columns_st category_map var_list data result is s
      | Some var_map \<Rightarrow>
          (case (lookup s data, lookup s result) of
             (Some (Obj d), Some (Obj r)) \<Rightarrow>
               (case get_column d i of Inl e \<Rightarrow> (Inl e, s)
                | Inr xs \<Rightarrow>
                    (case set_column r i (map (\<lambda>x. map_category x var_map) xs) of
                       Inl e \<Rightarrow> (Inl e, s)
                     | Inr r' \<Rightarrow>
                         map_columns_st category_map var_list data result is
                           (s[result := Obj r'])))
           | _ \<Rightarrow> (Inl TypeError, s)))"

definition apply_category_mapping_st ::
  "'a float_ops \<Rightarrow> nat \<Rightarrow> (string \<rightharpoonup> (string \<rightharpoonup> int)) \<Rightarrow> string list option \<Rightarrow> string
     \<Rightarrow> 'a store \<Rightarrow> (error + nat) \<times> 'a store" where
  "apply_category_mapping_st fo data category_map var_list data_form s =
     (case lookup s data of
        Some (Obj a) \<Rightarrow>
          (let (result, s1) = alloc (Obj a) s
           in case (if data_form \<in> set [''case_form'', ''frequency_form'']
                    then map_columns_st category_map var_list data result
                           [0..<n_vars var_list (n_cols a)] s1
                    else (Inr result, s1)) of
                (Inl e, s2) \<Rightarrow> (Inl e, s2)
              | (Inr result, s2) \<Rightarrow>
                  (case lookup s2 result of
                     Some (Obj r) \<Rightarrow>
                       (case astype_float fo r of
                          Inr f \<Rightarrow> (let (result', s3) = alloc (Num f) s2 in (Inr result', s3))
                        | Inl e \<Rightarrow>
                            if is_ValueError e
                            then (let bad_values = filter (\<lambda>x. \<not> is_int_or_float x) (objs r)
                                  in if bad_values \<noteq> []
                                     then (Inl (ValueErrorOf
                                       ''Could not convert categories to numeric: ''
                                       (set (strings bad_values))), s2)
                                     else (Inl e, s2))
                            else (Inl e, s2))
                   | _ \<Rightarrow> (Inl TypeError, s2)))
      | Some x \<Rightarrow> (Inr data, s)
      | None \<Rightarrow> (Inl TypeError, s))"

section \<open>The notions of the specification\<close>

text \<open>
  The row-major offset of an index tuple of naturals, each below its dimension, and the
  wrap NumPy applies to an index in \<open>[-d, d)\<close>. \<open>in_range\<close> is NumPy's test of an index
  tuple against a shape; \<open>in_bounds\<close> is the narrower test of the specification,
  \<open>[0, d)\<close> on every axis.
\<close>

fun ravel :: "nat list \<Rightarrow> nat list \<Rightarrow> nat" where
  "ravel (d # ds) (i # is) = i * prod_list ds + ravel ds is"
| "ravel ds is = 0"

definition wrap :: "nat list \<Rightarrow> int list \<Rightarrow> nat list" where
  "wrap ds is = map2 (\<lambda>d i. nat (i mod int d)) ds is"

definition in_range :: "nat list \<Rightarrow> int list \<Rightarrow> bool" where
  "in_range ds is = list_all2 (\<lambda>d i. - int d \<le> i \<and> i < int d) ds is"

definition in_bounds :: "nat list \<Rightarrow> int list \<Rightarrow> bool" where
  "in_bounds ds is = list_all2 (\<lambda>d i. 0 \<le> i \<and> i < int d) ds is"

text \<open>The table of a shape whose cell at offset \<open>k\<close> counts the occurrences of \<open>k\<close>.\<close>

definition histogram :: "nat list \<Rightarrow> nat list \<Rightarrow> int ndarray" where
  "histogram shp offs =
     \<lparr>shape = shp, elems = map (\<lambda>k. int (count_list offs k)) [0..<prod_list shp]\<rparr>"

text \<open>
  The index tuple a row of case-form data stands for, \<open>int(x - 1)\<close> for each of its
  cells, and the offset of the cell NumPy addresses with it.
\<close>

definition row_index :: "'a dtype \<Rightarrow> 'a list \<Rightarrow> error + int list" where
  "row_index dt r = sequence (map (\<lambda>x. py_int dt (minus_one dt x)) r)"

definition row_offset :: "'a dtype \<Rightarrow> nat list \<Rightarrow> 'a list \<Rightarrow> nat" where
  "row_offset dt shp r = ravel shp (wrap shp (projr (row_index dt r)))"

text \<open>
  The cells of a 2-D array convert when \<open>int(x - 1)\<close> raises on none of them; its rows
  are in range when NumPy accepts the index tuple of each for the declared shape.
\<close>

definition converts :: "'a dtype \<Rightarrow> 'a ndarray \<Rightarrow> bool" where
  "converts dt data \<longleftrightarrow> (\<forall>r \<in> set (rows data). \<not> isl (row_index dt r))"

definition all_in_range :: "'a dtype \<Rightarrow> 'a ndarray \<Rightarrow> nat list \<Rightarrow> bool" where
  "all_in_range dt data shp \<longleftrightarrow>
     (\<forall>r \<in> set (rows data). in_range shp (projr (row_index dt r)))"

text \<open>
  The rows NumPy refuses, in the order of the input, and the error of an index tuple it
  refuses: the error of the first index of the tuple that is out of range of its axis and
  no C integer, and \<open>IndexError\<close> when every index is a C integer.
\<close>

definition refused_rows :: "'a dtype \<Rightarrow> 'a ndarray \<Rightarrow> nat list \<Rightarrow> 'a list list" where
  "refused_rows dt data shp =
     filter (\<lambda>r. \<not> in_range shp (projr (row_index dt r))) (rows data)"

definition refused_with :: "nat list \<Rightarrow> int list \<Rightarrow> error" where
  "refused_with ds is =
     (case filter (\<lambda>(d, i). \<not> (- int d \<le> i \<and> i < int d) \<and> \<not> intp i) (zip ds is) of
        [] \<Rightarrow> IndexError
      | (d, i) # rest \<Rightarrow> refusal i)"

text \<open>
  Valid case-form input: a well-formed 2-D array with one column per declared dimension
  whose rows all give indices within the declared bounds.
\<close>

definition valid_case_form :: "'a dtype \<Rightarrow> 'a ndarray \<Rightarrow> nat list \<Rightarrow> bool" where
  "valid_case_form dt data shp \<longleftrightarrow>
     wf data \<and> ndim data = 2 \<and> shape data ! 1 = length shp \<and>
     (\<forall>r \<in> set (rows data).
        case row_index dt r of Inl e \<Rightarrow> False | Inr idx \<Rightarrow> in_bounds shp idx)"

text \<open>
  Valid frequency-form input: a well-formed 2-D array with one column per declared
  dimension and a last column of frequencies, whose rows give indices within the declared
  bounds and frequencies that are integers of the table's int64 cells. \<open>rows_at\<close> are the
  rows that carry a given index tuple, in the order of the input.
\<close>

definition valid_frequency_form :: "'a dtype \<Rightarrow> 'a ndarray \<Rightarrow> nat list \<Rightarrow> bool" where
  "valid_frequency_form dt data shp \<longleftrightarrow>
     wf data \<and> ndim data = 2 \<and> shape data ! 1 = length shp + 1 \<and>
     (\<forall>r \<in> set (rows data).
        (case row_index dt (butlast r) of Inl e \<Rightarrow> False | Inr idx \<Rightarrow> in_bounds shp idx) \<and>
        (case py_int dt (last r) of Inl e \<Rightarrow> False
         | Inr v \<Rightarrow> - (2 ^ 63) \<le> v \<and> v < 2 ^ 63))"

definition rows_at :: "'a dtype \<Rightarrow> 'a ndarray \<Rightarrow> int list \<Rightarrow> 'a list list" where
  "rows_at dt data idx = filter (\<lambda>r. row_index dt (butlast r) = Inr idx) (rows data)"

text \<open>
  A contingency table of a declared dimension: an integer array of exactly that shape
  whose cells are not negative. The frequencies of frequency-form data are the integers
  its last column converts to; the cells of table-form data are the cells of the input
  array.
\<close>

definition count_table :: "nat list \<Rightarrow> int ndarray \<Rightarrow> bool" where
  "count_table shp t \<longleftrightarrow> shape t = shp \<and> wf t \<and> (\<forall>x \<in> set (elems t). 0 \<le> x)"


definition cells_non_negative :: "int ndarray \<Rightarrow> bool" where
  "cells_non_negative data \<longleftrightarrow> (\<forall>x \<in> set (elems data). 0 \<le> x)"

text \<open>
  The 2-D array of all the rows of all the batches of a 3-D stack, batch after batch: in
  row-major order it has the cells of the stack.
\<close>

definition concatenate_batches :: "'a ndarray \<Rightarrow> 'a ndarray" where
  "concatenate_batches cases =
     \<lparr>shape = [shape cases ! 0 * shape cases ! 1, shape cases ! 2], elems = elems cases\<rparr>"

text \<open>
  A well-formed array of objects, and the array the per-column mapping is to produce:
  a cell in the column of a variable that has a mapping goes through \<open>_map_category\<close>,
  every other cell stays. \<open>mapped_upto j\<close> is that array when the columns below \<open>j\<close>
  are done.
\<close>

definition wf_objects :: "'a objects \<Rightarrow> bool" where
  "wf_objects a \<longleftrightarrow> length (objs a) = n_rows a * n_cols a"

definition mapped_cell ::
  "(string \<rightharpoonup> (string \<rightharpoonup> int)) \<Rightarrow> string list option \<Rightarrow> 'a objects \<Rightarrow> nat \<Rightarrow> 'a obj" where
  "mapped_cell category_map var_list data k =
     (let i = k mod n_cols data
      in if i < n_vars var_list (n_cols data)
         then (case category_map (var_name var_list i) of
                 None \<Rightarrow> objs data ! k
               | Some var_map \<Rightarrow> map_category (objs data ! k) var_map)
         else objs data ! k)"

definition mapped ::
  "(string \<rightharpoonup> (string \<rightharpoonup> int)) \<Rightarrow> string list option \<Rightarrow> 'a objects \<Rightarrow> 'a objects" where
  "mapped category_map var_list data =
     data\<lparr>objs := map (mapped_cell category_map var_list data) [0..<length (objs data)]\<rparr>"

definition mapped_upto ::
  "nat \<Rightarrow> (string \<rightharpoonup> (string \<rightharpoonup> int)) \<Rightarrow> string list option \<Rightarrow> 'a objects \<Rightarrow> 'a objects" where
  "mapped_upto j category_map var_list data =
     data\<lparr>objs := map (\<lambda>k. if k mod n_cols data < j then mapped_cell category_map var_list data k
                             else objs data ! k) [0..<length (objs data)]\<rparr>"

text \<open>
  A call leaves the caller's arrays alone when the store before it is an initial
  segment of the store after it: every array that existed holds what it held. The
  table returned is freshly allocated when its reference is beyond the store before the
  call, and holds a table. The array \<open>_apply_category_mapping\<close> returns for an array
  of objects is freshly allocated in the same sense; a numeric array it returns itself.
\<close>

definition preserved :: "'a store \<Rightarrow> 'a store \<Rightarrow> bool" where
  "preserved s s' \<longleftrightarrow> take (length s) s' = s"

definition fresh_table :: "'a store \<Rightarrow> 'a store \<Rightarrow> error + nat \<Rightarrow> bool" where
  "fresh_table s s' r = (case r of Inl e \<Rightarrow> True
     | Inr t \<Rightarrow> length s \<le> t \<and> (case lookup s' t of Some (Tab T) \<Rightarrow> True | _ \<Rightarrow> False))"

definition fresh_array :: "'a store \<Rightarrow> 'a store \<Rightarrow> nat \<Rightarrow> error + nat \<Rightarrow> bool" where
  "fresh_array s s' data r = (case r of Inl e \<Rightarrow> True
     | Inr t \<Rightarrow> (case lookup s data of
         Some (Obj a) \<Rightarrow> length s \<le> t \<and> (case lookup s' t of Some (Num f) \<Rightarrow> True | _ \<Rightarrow> False)
       | _ \<Rightarrow> t = data))"

section \<open>Index arithmetic and the counting loop\<close>

lemma in_bounds_in_range: "in_bounds ds is \<Longrightarrow> in_range ds is"
  unfolding in_bounds_def in_range_def by (erule list_all2_mono) simp

lemma wrap_in_bounds: "in_bounds ds is \<Longrightarrow> wrap ds is = map nat is"
  unfolding in_bounds_def wrap_def
  by (induction ds "is" rule: list_all2_induct) simp_all

lemma wrap_Cons [simp]: "wrap (d # ds) (i # is) = nat (i mod int d) # wrap ds is"
  by (simp add: wrap_def)

lemma wrap_Nil [simp]: "wrap ds [] = []" "wrap [] is = []"
  by (simp_all add: wrap_def)

lemma in_range_Cons [simp]:
  "in_range (d # ds) (i # is) \<longleftrightarrow> - int d \<le> i \<and> i < int d \<and> in_range ds is"
  by (simp add: in_range_def)

lemma in_range_Nil [simp]: "in_range [] is \<longleftrightarrow> is = []" "in_range ds [] \<longleftrightarrow> ds = []"
  by (simp_all add: in_range_def)

lemma index_conversion_in_range: "in_range ds is \<Longrightarrow> index_conversion ds is = None"
  unfolding in_range_def by (induction ds "is" rule: list_all2_induct) simp_all

lemma locate_in_range:
  "in_range ds is \<Longrightarrow>
     locate ds is = Inr (ravel ds (wrap ds is), 1) \<and> ravel ds (wrap ds is) < prod_list ds"
proof (induction ds "is" rule: locate.induct)
  case (1 ds)
  then show ?case by simp
next
  case (2 i "is")
  then show ?case by simp
next
  case (3 d ds i "is")
  then have b: "- int d \<le> i" "i < int d" and r: "in_range ds is" by simp_all
  from 3 b r have ih: "locate ds is = Inr (ravel ds (wrap ds is), 1)"
    "ravel ds (wrap ds is) < prod_list ds" by simp_all
  have "0 < int d" using b by linarith
  then have "0 \<le> i mod int d" "i mod int d < int d" by simp_all
  then have "nat (i mod int d) < d" by linarith
  then have "Suc (nat (i mod int d)) \<le> d" by simp
  then have "Suc (nat (i mod int d)) * prod_list ds \<le> d * prod_list ds" by (rule mult_le_mono1)
  then have "nat (i mod int d) * prod_list ds + ravel ds (wrap ds is) < d * prod_list ds"
    using ih(2) by simp
  then show ?case using b ih by simp
qed

lemma resolve_in_range:
  "in_range ds is \<Longrightarrow>
     resolve ds is = Inr (ravel ds (wrap ds is), 1) \<and> ravel ds (wrap ds is) < prod_list ds"
  using locate_in_range[of ds "is"] index_conversion_in_range[of ds "is"]
  by (simp add: resolve_def)

lemma locate_out_of_range:
  "length is = length ds \<Longrightarrow> \<not> in_range ds is \<Longrightarrow> locate ds is = Inl IndexError"
proof (induction ds "is" rule: locate.induct)
  case (1 ds)
  then show ?case by simp
next
  case (2 i "is")
  then show ?case by simp
next
  case (3 d ds i "is")
  show ?case
  proof (cases "- int d \<le> i \<and> i < int d")
    case True
    with 3 have "locate ds is = Inl IndexError" by simp
    with True show ?thesis by simp
  next
    case False
    then show ?thesis by auto
  qed
qed

lemma index_conversion_refused:
  "length is = length ds \<Longrightarrow>
     index_conversion ds is =
       (case filter (\<lambda>(d, i). \<not> (- int d \<le> i \<and> i < int d) \<and> \<not> intp i) (zip ds is) of
          [] \<Rightarrow> None
        | (d, i) # rest \<Rightarrow> Some (refusal i))"
  by (induction "is" ds rule: list_induct2) simp_all

lemma resolve_out_of_range:
  assumes "length is = length ds" "\<not> in_range ds is"
  shows "resolve ds is = Inl (refused_with ds is)"
proof (cases "filter (\<lambda>(d, i). \<not> (- int d \<le> i \<and> i < int d) \<and> \<not> intp i) (zip ds is)")
  case Nil
  then show ?thesis
    using index_conversion_refused[OF assms(1)] locate_out_of_range[OF assms]
    by (simp add: resolve_def refused_with_def)
next
  case (Cons p ps)
  then show ?thesis
    using index_conversion_refused[OF assms(1)]
    by (cases p) (simp add: resolve_def refused_with_def)
qed

lemma ravel_less:
  "list_all2 (\<lambda>d i. i < d) ds is \<Longrightarrow> ravel ds is < prod_list ds"
proof (induction ds "is" rule: list_all2_induct)
  case Nil
  then show ?case by simp
next
  case (Cons d ds i "is")
  then have "Suc i * prod_list ds \<le> d * prod_list ds" by (intro mult_le_mono1) simp
  with Cons show ?case by simp
qed

lemma ravel_inj:
  "list_all2 (\<lambda>d i. i < d) ds is \<Longrightarrow> list_all2 (\<lambda>d i. i < d) ds js \<Longrightarrow>
     ravel ds is = ravel ds js \<Longrightarrow> is = js"
proof (induction ds arbitrary: "is" js)
  case Nil
  then show ?case by simp
next
  case (Cons d ds)
  then obtain i is' j js' where e: "is = i # is'" "js = j # js'"
    by (auto simp: list_all2_Cons1)
  with Cons.prems have b: "list_all2 (\<lambda>d i. i < d) ds is'" "list_all2 (\<lambda>d i. i < d) ds js'"
    and eq: "i * prod_list ds + ravel ds is' = j * prod_list ds + ravel ds js'" by simp_all
  have l1: "ravel ds is' < prod_list ds" and l2: "ravel ds js' < prod_list ds"
    using ravel_less b by auto
  have "(i * prod_list ds + ravel ds is') div prod_list ds = i" using l1 by simp
  moreover have "(j * prod_list ds + ravel ds js') div prod_list ds = j" using l2 by simp
  ultimately have "i = j" using eq by simp
  with eq have "ravel ds is' = ravel ds js'" by simp
  with Cons.IH b e \<open>i = j\<close> show ?case by simp
qed

lemma in_bounds_ravel_inj:
  assumes "in_bounds ds is" "in_bounds ds js" "ravel ds (map nat is) = ravel ds (map nat js)"
  shows "is = js"
proof -
  have a: "list_all2 (\<lambda>d i. i < d) ds (map nat is)" "list_all2 (\<lambda>d i. i < d) ds (map nat js)"
    using assms(1,2) by (auto simp: in_bounds_def list_all2_map2 elim!: list_all2_mono)
  from ravel_inj[OF a assms(3)] have "map nat is = map nat js" .
  then have "map int (map nat is) = map int (map nat js)" by simp
  moreover have "map int (map nat is) = is" using assms(1)
    by (auto simp: in_bounds_def list_all2_conv_all_nth intro!: nth_equalityI)
  moreover have "map int (map nat js) = js" using assms(2)
    by (auto simp: in_bounds_def list_all2_conv_all_nth intro!: nth_equalityI)
  ultimately show ?thesis by simp
qed

lemma count_list_map_inj:
  "(\<forall>y \<in> set xs. f y = f x \<longrightarrow> y = x) \<Longrightarrow> count_list (map f xs) (f x) = count_list xs x"
  by (induction xs) auto

lemma iter_2d:
  "shape a = [n, m] \<Longrightarrow>
     iter a = Inr (map (\<lambda>i. \<lparr>shape = [m], elems = take m (drop (i * m) (elems a))\<rparr>) [0..<n])"
  by (simp add: iter_def item_def)

lemma rows_2d:
  "shape a = [n, m] \<Longrightarrow> rows a = map (\<lambda>i. take m (drop (i * m) (elems a))) [0..<n]"
  by (simp add: rows_def)

lemma shape_2d: "ndim a = 2 \<Longrightarrow> \<exists>n m. shape a = [n, m]"
  by (cases "shape a"; cases "tl (shape a)"; cases "tl (tl (shape a))") (auto simp: ndim_def)

lemma length_row:
  assumes "length es = n * m" "i < n"
  shows "length (take m (drop (i * m) es)) = m"
proof -
  have "Suc i * m \<le> n * m" using assms(2) by (intro mult_le_mono1) simp
  then show ?thesis using assms(1) by simp
qed

lemma sequence_map_Inr [simp]: "sequence (map Inr xs) = Inr xs"
  by (induction xs) simp_all

lemma sequence_length: "sequence xs = Inr ys \<Longrightarrow> length ys = length xs"
  by (induction xs arbitrary: ys) (auto split: sum.splits)

lemma int_tuple_1d:
  assumes "shape c = [m]" "length (elems c) = m"
  shows "int_tuple dt c = sequence (map (py_int dt) (elems c))"
proof -
  have "map (int_of dt) (map (item c) [0..<m]) = map (py_int dt) (elems c)"
  proof (rule nth_equalityI)
    show "length (map (int_of dt) (map (item c) [0..<m])) = length (map (py_int dt) (elems c))"
      using assms by simp
  next
    fix i assume "i < length (map (int_of dt) (map (item c) [0..<m]))"
    then have i: "i < m" by simp
    then have "take (Suc 0) (drop i (elems c)) = [elems c ! i]"
      using assms(2) by (metis Cons_nth_drop_Suc take0 take_Suc_Cons)
    then show "map (int_of dt) (map (item c) [0..<m]) ! i = map (py_int dt) (elems c) ! i"
      using i assms by (simp add: item_def int_of_def)
  qed
  then show ?thesis using assms by (simp add: int_tuple_def iter_def)
qed

lemma update_range_one:
  assumes "off < length xs"
  shows "update_range f off (Suc 0) xs = xs[off := f (xs ! off)]"
proof -
  have "take (Suc 0) (drop off xs) = [xs ! off]"
    using assms by (metis Cons_nth_drop_Suc take0 take_Suc_Cons)
  then show ?thesis using assms
    by (simp add: update_range_def upd_conv_take_nth_drop)
qed

lemma sum_list_incr:
  fixes xs :: "int list"
  shows "k < length xs \<Longrightarrow> sum_list (xs[k := xs ! k + 1]) = sum_list xs + 1"
  by (induction xs arbitrary: k) (auto simp: nth_Cons split: nat.splits)

lemma iadd_in_range:
  assumes "in_range (shape table) idx" "wf table"
  shows "iadd table idx 1 = Inr (table\<lparr>elems :=
     (elems table)[ravel (shape table) (wrap (shape table) idx) :=
        elems table ! ravel (shape table) (wrap (shape table) idx) + 1]\<rparr>)"
    and "ravel (shape table) (wrap (shape table) idx) < length (elems table)"
proof -
  from resolve_in_range[OF assms(1)]
  have res: "resolve (shape table) idx = Inr (ravel (shape table) (wrap (shape table) idx), 1)"
    and lt: "ravel (shape table) (wrap (shape table) idx) < prod_list (shape table)" by simp_all
  from lt assms(2) show lt': "ravel (shape table) (wrap (shape table) idx) < length (elems table)"
    by (simp add: wf_def)
  show "iadd table idx 1 = Inr (table\<lparr>elems :=
     (elems table)[ravel (shape table) (wrap (shape table) idx) :=
        elems table ! ravel (shape table) (wrap (shape table) idx) + 1]\<rparr>)"
    using res lt' by (simp add: iadd_def update_range_one)
qed

lemma count_cases_in_range:
  assumes "map (int_tuple dt) cs = map Inr idxs"
    and "\<forall>idx \<in> set idxs. in_range (shape table) idx"
    and "wf table"
  shows "\<exists>t. count_cases dt table cs = Inr t \<and> shape t = shape table \<and> wf t
    \<and> sum_list (elems t) = sum_list (elems table) + int (length idxs)
    \<and> (\<forall>k < length (elems table). elems t ! k = elems table ! k
          + int (count_list (map (\<lambda>idx. ravel (shape table) (wrap (shape table) idx)) idxs) k))"
  using assms
proof (induction cs arbitrary: table idxs)
  case Nil
  then show ?case by simp
next
  case (Cons c cs)
  then obtain idx rest where idxs: "idxs = idx # rest" and c: "int_tuple dt c = Inr idx"
    and cs: "map (int_tuple dt) cs = map Inr rest" by (cases idxs) auto
  let ?off = "ravel (shape table) (wrap (shape table) idx)"
  from Cons.prems idxs have ib: "in_range (shape table) idx" by simp
  define t1 where "t1 = table\<lparr>elems := (elems table)[?off := elems table ! ?off + 1]\<rparr>"
  have ia: "iadd table idx 1 = Inr t1" and lt': "?off < length (elems table)"
    using iadd_in_range[OF ib Cons.prems(3)] by (simp_all add: t1_def)
  have sh: "shape t1 = shape table" and wf1: "wf t1"
    using Cons.prems(3) by (simp_all add: t1_def wf_def)
  have len1: "length (elems t1) = length (elems table)" by (simp add: t1_def)
  from Cons.prems(2) idxs sh have "\<forall>idx \<in> set rest. in_range (shape t1) idx" by simp
  from Cons.IH[OF cs this wf1] obtain t where t: "count_cases dt t1 cs = Inr t"
    "shape t = shape t1" "wf t"
    "sum_list (elems t) = sum_list (elems t1) + int (length rest)"
    "\<forall>k < length (elems t1). elems t ! k = elems t1 ! k
          + int (count_list (map (\<lambda>idx. ravel (shape t1) (wrap (shape t1) idx)) rest) k)"
    by blast
  have s1: "sum_list (elems t1) = sum_list (elems table) + 1"
    using lt' by (simp add: t1_def sum_list_incr)
  have "count_cases dt table (c # cs) = Inr t" using c ia t(1) by simp
  moreover have "shape t = shape table" using t(2) sh by simp
  moreover have "sum_list (elems t) = sum_list (elems table) + int (length idxs)"
    using t(4) s1 idxs by simp
  moreover have "\<forall>k < length (elems table). elems t ! k = elems table ! k
      + int (count_list (map (\<lambda>idx. ravel (shape table) (wrap (shape table) idx)) idxs) k)"
  proof (intro allI impI)
    fix k assume k: "k < length (elems table)"
    with t(5) len1 sh have "elems t ! k = elems t1 ! k
      + int (count_list (map (\<lambda>idx. ravel (shape table) (wrap (shape table) idx)) rest) k)"
      by simp
    moreover have "elems t1 ! k = elems table ! k + (if k = ?off then 1 else 0)"
      using k lt' by (simp add: t1_def nth_list_update)
    ultimately show "elems t ! k = elems table ! k
      + int (count_list (map (\<lambda>idx. ravel (shape table) (wrap (shape table) idx)) idxs) k)"
      using idxs by auto
  qed
  ultimately show ?case using t(3) by blast
qed

lemma count_cases_out_of_range:
  assumes "map (int_tuple dt) cs = map Inr idxs"
    and "\<forall>idx \<in> set idxs. length idx = length (shape table)"
    and "filter (\<lambda>idx. \<not> in_range (shape table) idx) idxs = bad # others"
    and "wf table"
  shows "count_cases dt table cs = Inl (refused_with (shape table) bad)"
  using assms
proof (induction cs arbitrary: table idxs)
  case Nil
  then show ?case by simp
next
  case (Cons c cs)
  then obtain idx rest where idxs: "idxs = idx # rest" and c: "int_tuple dt c = Inr idx"
    and cs: "map (int_tuple dt) cs = map Inr rest" by (cases idxs) auto
  show ?case
  proof (cases "in_range (shape table) idx")
    case True
    let ?off = "ravel (shape table) (wrap (shape table) idx)"
    define t1 where "t1 = table\<lparr>elems := (elems table)[?off := elems table ! ?off + 1]\<rparr>"
    have ia: "iadd table idx 1 = Inr t1"
      using iadd_in_range[OF True Cons.prems(4)] by (simp add: t1_def)
    have sh: "shape t1 = shape table" and wf1: "wf t1"
      using Cons.prems(4) by (simp_all add: t1_def wf_def)
    have len: "\<forall>idx \<in> set rest. length idx = length (shape t1)"
      using Cons.prems(2) idxs sh by simp
    have bad: "filter (\<lambda>idx. \<not> in_range (shape t1) idx) rest = bad # others"
      using Cons.prems(3) idxs True sh by simp
    have "count_cases dt t1 cs = Inl (refused_with (shape t1) bad)"
      using cs len bad wf1 by (rule Cons.IH)
    then show ?thesis using c ia sh by simp
  next
    case False
    have "length idx = length (shape table)" using Cons.prems(2) idxs by simp
    from resolve_out_of_range[OF this False] have "iadd table idx 1 = Inl (refused_with (shape table) idx)"
      by (simp add: iadd_def)
    moreover have "bad = idx" using Cons.prems(3) idxs False by simp
    ultimately show ?thesis using c by simp
  qed
qed

lemma case_tuples:
  assumes "shape data = [n, m]" "wf data"
  shows "iter (map_array f data) = Inr cs \<Longrightarrow>
     map (int_tuple dt) cs = map (\<lambda>r. sequence (map (\<lambda>x. py_int dt (f x)) r)) (rows data)"
proof -
  assume "iter (map_array f data) = Inr cs"
  then have cs: "cs = map (\<lambda>i. \<lparr>shape = [m], elems = take m (drop (i * m) (map f (elems data)))\<rparr>) [0..<n]"
    using assms(1) by (simp add: iter_2d[of _ n m] map_array_def)
  have len: "length (elems data) = n * m" using assms by (simp add: wf_def)
  have "\<And>i. i < n \<Longrightarrow> int_tuple dt \<lparr>shape = [m], elems = take m (drop (i * m) (map f (elems data)))\<rparr>
      = sequence (map (\<lambda>x. py_int dt (f x)) (take m (drop (i * m) (elems data))))"
  proof -
    fix i assume i: "i < n"
    have "length (take m (drop (i * m) (map f (elems data)))) = m"
      using length_row[of "map f (elems data)" n m i] len i by simp
    then show "int_tuple dt \<lparr>shape = [m], elems = take m (drop (i * m) (map f (elems data)))\<rparr>
      = sequence (map (\<lambda>x. py_int dt (f x)) (take m (drop (i * m) (elems data))))"
      by (subst int_tuple_1d[of _ m]) (simp_all add: take_map drop_map comp_def)
  qed
  then show ?thesis using assms(1) cs by (simp add: rows_2d[of _ n m])
qed

lemma length_rows_elem:
  assumes "shape data = [n, m]" "wf data" "r \<in> set (rows data)"
  shows "length r = m"
proof -
  have len: "length (elems data) = n * m" using assms by (simp add: wf_def)
  from assms(3) obtain i where "i < n" "r = take m (drop (i * m) (elems data))"
    using assms(1) by (auto simp: rows_2d[of _ n m])
  then show ?thesis using length_row[OF len] by simp
qed

lemma refused_rows_Nil: "refused_rows dt data shp = [] \<longleftrightarrow> all_in_range dt data shp"
  by (auto simp: refused_rows_def all_in_range_def filter_empty_conv)

lemma process_case_form_eq:
  assumes wfd: "wf data" and nd: "ndim data = 2" and m: "shape data ! 1 = length shp"
    and conv: "converts dt data"
  shows "process_case_form dt data shp =
    (if all_in_range dt data shp
     then Inr (histogram shp (map (row_offset dt shp) (rows data)))
     else Inl (refused_with shp (projr (row_index dt (hd (refused_rows dt data shp))))))"
proof -
  from shape_2d[OF nd] obtain n m' where sh: "shape data = [n, m']" by blast
  obtain cs where it: "iter (map_array (minus_one dt) data) = Inr cs"
    using sh by (simp add: iter_def map_array_def)
  define idxs where "idxs = map (\<lambda>r. projr (row_index dt r)) (rows data)"
  have ri: "map (row_index dt) (rows data) = map Inr idxs"
  proof -
    have "row_index dt r = Inr (projr (row_index dt r))" if "r \<in> set (rows data)" for r
      using conv that by (cases "row_index dt r") (auto simp: converts_def)
    then show ?thesis by (simp add: idxs_def)
  qed
  have tup: "map (int_tuple dt) cs = map Inr idxs"
  proof -
    have "row_index dt = (\<lambda>r. sequence (map (\<lambda>x. py_int dt (minus_one dt x)) r))"
      by (rule ext) (simp add: row_index_def)
    then show ?thesis using case_tuples[OF sh wfd it, of dt] ri by simp
  qed
  have wz: "wf (zeros shp)" by (simp add: wf_def zeros_def)
  have p: "process_case_form dt data shp = count_cases dt (zeros shp) cs"
    using nd m it by (simp add: process_case_form_def)
  show ?thesis
  proof (cases "all_in_range dt data shp")
    case True
    then have ib: "\<forall>idx \<in> set idxs. in_range (shape (zeros shp)) idx"
      by (auto simp: idxs_def zeros_def all_in_range_def)
    from count_cases_in_range[OF tup ib wz] obtain t where
      t: "count_cases dt (zeros shp) cs = Inr t" "shape t = shp" "wf t"
       "\<forall>k < prod_list shp. elems t ! k = int (count_list (map (\<lambda>idx. ravel shp (wrap shp idx)) idxs) k)"
      by (auto simp: zeros_def)
    have "elems t = map (\<lambda>k. int (count_list (map (row_offset dt shp) (rows data)) k)) [0..<prod_list shp]"
    proof (rule nth_equalityI)
      show "length (elems t) = length (map (\<lambda>k. int (count_list (map (row_offset dt shp) (rows data)) k)) [0..<prod_list shp])"
        using t(2,3) by (simp add: wf_def)
    next
      fix k assume "k < length (elems t)"
      then have k: "k < prod_list shp" using t(2,3) by (simp add: wf_def)
      have "map (\<lambda>idx. ravel shp (wrap shp idx)) idxs = map (row_offset dt shp) (rows data)"
        by (simp add: idxs_def row_offset_def comp_def)
      with t(4) k show "elems t ! k = map (\<lambda>k. int (count_list (map (row_offset dt shp) (rows data)) k)) [0..<prod_list shp] ! k"
        by simp
    qed
    with t(2) have "t = histogram shp (map (row_offset dt shp) (rows data))"
      by (simp add: histogram_def)
    with p t(1) True show ?thesis by simp
  next
    case False
    then obtain r rest where rr: "refused_rows dt data shp = r # rest"
      using refused_rows_Nil[of dt data shp] by (cases "refused_rows dt data shp") auto
    have "filter (\<lambda>idx. \<not> in_range shp idx) idxs
        = map (\<lambda>r. projr (row_index dt r)) (refused_rows dt data shp)"
      by (simp add: idxs_def refused_rows_def filter_map comp_def)
    then have bad: "filter (\<lambda>idx. \<not> in_range (shape (zeros shp)) idx) idxs
        = projr (row_index dt r) # map (\<lambda>r. projr (row_index dt r)) rest"
      using rr by (simp add: zeros_def)
    have len: "\<forall>idx \<in> set idxs. length idx = length (shape (zeros shp))"
    proof
      fix idx assume "idx \<in> set idxs"
      then obtain r where r: "r \<in> set (rows data)" "idx = projr (row_index dt r)"
        by (auto simp: idxs_def)
      then have "row_index dt r = Inr idx" using conv by (cases "row_index dt r") (auto simp: converts_def)
      then have "length idx = length r" by (auto simp: row_index_def dest: sequence_length)
      moreover have "m' = length shp" using m sh by simp
      ultimately show "length idx = length (shape (zeros shp))"
        using length_rows_elem[OF sh wfd r(1)] by (simp add: zeros_def)
    qed
    from count_cases_out_of_range[OF tup len bad wz] p False rr show ?thesis
      by (simp add: zeros_def)
  qed
qed

lemma valid_row_index:
  assumes "valid_case_form dt data shp" "r \<in> set (rows data)"
  shows "\<exists>idx. row_index dt r = Inr idx \<and> in_bounds shp idx"
  using assms by (cases "row_index dt r") (auto simp: valid_case_form_def)

lemma valid_case_form_converts:
  assumes "valid_case_form dt data shp"
  shows "converts dt data \<and> all_in_range dt data shp"
  using valid_row_index[OF assms]
  by (fastforce simp: converts_def all_in_range_def in_bounds_in_range)

lemma valid_row_offset:
  assumes "valid_case_form dt data shp" "r \<in> set (rows data)"
  shows "row_offset dt shp r < prod_list shp"
proof -
  from valid_row_index[OF assms] obtain idx where "row_index dt r = Inr idx" "in_bounds shp idx"
    by blast
  then show ?thesis using resolve_in_range[OF in_bounds_in_range, of shp idx]
    by (simp add: row_offset_def)
qed

lemma sum_list_count_list:
  "\<forall>x \<in> set offs. x < n \<Longrightarrow> (\<Sum>k\<leftarrow>[0..<n]. int (count_list offs k)) = int (length offs)"
proof (induction offs)
  case Nil
  then show ?case by (simp add: sum_list_0)
next
  case (Cons x offs)
  have "(\<Sum>k\<leftarrow>[0..<n]. int (count_list (x # offs) k))
     = (\<Sum>k\<leftarrow>[0..<n]. int (count_list offs k) + (if k = x then 1 else 0))"
    by (intro arg_cong[where f = sum_list] map_cong) auto
  also have "\<dots> = (\<Sum>k\<leftarrow>[0..<n]. int (count_list offs k)) + (\<Sum>k\<leftarrow>[0..<n]. if k = x then 1 else 0)"
    by (simp add: sum_list_addf)
  also have "(\<Sum>k\<leftarrow>[0..<n]. if k = x then 1 else 0) = (1::int)"
    using Cons.prems by (simp add: interv_sum_list_conv_sum_set_nat)
  finally show ?case using Cons by simp
qed

lemma count_list_map_cong:
  "(\<forall>y \<in> set xs. f y = a \<longleftrightarrow> g y = b) \<Longrightarrow> count_list (map f xs) a = count_list (map g xs) b"
  by (induction xs) auto

lemma cell_histogram:
  assumes "in_bounds shp idx"
  shows "cell (histogram shp offs) idx = Inr (int (count_list offs (ravel shp (map nat idx))))"
proof -
  from resolve_in_range[OF in_bounds_in_range[OF assms]] wrap_in_bounds[OF assms]
  have "resolve shp idx = Inr (ravel shp (map nat idx), 1)" "ravel shp (map nat idx) < prod_list shp"
    by simp_all
  then show ?thesis by (simp add: cell_def histogram_def)
qed

text \<open>
  C3. On valid case-form input \<open>_process_case_form\<close> returns a table of the declared
  shape whose cells sum to the number of input rows, \<open>data.shape[0]\<close>, and whose cell at
  each index tuple within bounds is the number of input rows with that index tuple.
\<close>

theorem process_case_form_counts_rows:
  assumes "valid_case_form dt data shp"
  shows "\<exists>table. process_case_form dt data shp = Inr table \<and> shape table = shp \<and>
     sum_list (elems table) = int (shape data ! 0) \<and>
     (\<forall>idx. in_bounds shp idx \<longrightarrow>
        cell table idx = Inr (int (count_list (map (row_index dt) (rows data)) (Inr idx))))"
proof -
  let ?offs = "map (row_offset dt shp) (rows data)"
  from assms have wfd: "wf data" and nd: "ndim data = 2" and m: "shape data ! 1 = length shp"
    by (simp_all add: valid_case_form_def)
  from valid_case_form_converts[OF assms] process_case_form_eq[OF wfd nd m]
  have p: "process_case_form dt data shp = Inr (histogram shp ?offs)" by simp
  from shape_2d[OF nd] obtain n m' where sh: "shape data = [n, m']" by blast
  have "\<forall>x \<in> set ?offs. x < prod_list shp" using valid_row_offset[OF assms] by auto
  from sum_list_count_list[OF this]
  have s: "sum_list (elems (histogram shp ?offs)) = int (shape data ! 0)"
    using sh by (simp add: histogram_def rows_2d[of _ n m'])
  have c: "cell (histogram shp ?offs) idx
      = Inr (int (count_list (map (row_index dt) (rows data)) (Inr idx)))"
    if b: "in_bounds shp idx" for idx
  proof -
    have "\<forall>r \<in> set (rows data). row_offset dt shp r = ravel shp (map nat idx)
        \<longleftrightarrow> row_index dt r = Inr idx"
    proof
      fix r assume "r \<in> set (rows data)"
      from valid_row_index[OF assms this] obtain j where j: "row_index dt r = Inr j"
        "in_bounds shp j" by blast
      then have "row_offset dt shp r = ravel shp (map nat j)"
        by (simp add: row_offset_def wrap_in_bounds)
      then show "row_offset dt shp r = ravel shp (map nat idx) \<longleftrightarrow> row_index dt r = Inr idx"
        using j b in_bounds_ravel_inj[of shp j idx] by auto
    qed
    from count_list_map_cong[OF this] cell_histogram[OF b] show ?thesis by simp
  qed
  from p s c show ?thesis by (auto simp: histogram_def)
qed

theorem process_case_form_counts_rows_witness:
  "valid_case_form int_dtype \<lparr>shape = [3, 2], elems = [1, 2, 2, 1, 1, 2]\<rparr> [2, 2] \<and>
   (\<exists>table. process_case_form int_dtype \<lparr>shape = [3, 2], elems = [1, 2, 2, 1, 1, 2]\<rparr> [2, 2]
        = Inr table \<and> shape table = [2, 2] \<and> sum_list (elems table) = 3 \<and>
      cell table [0, 1] = Inr 2)"
proof -
  have v: "valid_case_form int_dtype \<lparr>shape = [3, 2], elems = [1, 2, 2, 1, 1, 2]\<rparr> [2, 2]"
    by code_simp
  have b: "in_bounds [2, 2] [0, 1]" by code_simp
  have c: "int (count_list (map (row_index int_dtype)
      (rows \<lparr>shape = [3, 2], elems = [1, 2, 2, 1, 1, 2]\<rparr>)) (Inr [0, 1])) = 2"
    by code_simp
  from process_case_form_counts_rows[OF v] b c v show ?thesis by auto
qed

text \<open>
  C7. On valid case-form input the order of the rows does not matter: an array of the
  same shape holding a permutation of the rows gives the same table.
\<close>

theorem process_case_form_row_order:
  assumes "valid_case_form dt data shp"
    and "wf data'" and "shape data' = shape data" and "mset (rows data') = mset (rows data)"
  shows "process_case_form dt data' shp = process_case_form dt data shp"
proof -
  have s: "set (rows data') = set (rows data)" using assms(4) by (rule mset_eq_setD)
  have v': "valid_case_form dt data' shp"
    using assms(1,2,3) s by (simp add: valid_case_form_def ndim_def)
  have "count_list (map (row_offset dt shp) (rows data')) k
      = count_list (map (row_offset dt shp) (rows data)) k" for k
  proof -
    have "mset (map (row_offset dt shp) (rows data')) = mset (map (row_offset dt shp) (rows data))"
      using assms(4) by simp
    then show ?thesis by (metis count_mset)
  qed
  then have h: "histogram shp (map (row_offset dt shp) (rows data'))
      = histogram shp (map (row_offset dt shp) (rows data))" by (simp add: histogram_def)
  have "process_case_form dt data shp = Inr (histogram shp (map (row_offset dt shp) (rows data)))"
    using assms(1) valid_case_form_converts[OF assms(1)] process_case_form_eq[of data shp dt]
    by (simp add: valid_case_form_def)
  moreover have "process_case_form dt data' shp
      = Inr (histogram shp (map (row_offset dt shp) (rows data')))"
    using v' valid_case_form_converts[OF v'] process_case_form_eq[of data' shp dt]
    by (simp add: valid_case_form_def)
  ultimately show ?thesis using h by simp
qed

theorem process_case_form_row_order_witness:
  "valid_case_form int_dtype \<lparr>shape = [3, 2], elems = [1, 2, 2, 1, 1, 2]\<rparr> [2, 2] \<and>
   wf \<lparr>shape = [3, 2], elems = [2, 1, 1, 2, 1, 2 :: int]\<rparr> \<and>
   mset (rows \<lparr>shape = [3, 2], elems = [2, 1, 1, 2, 1, 2 :: int]\<rparr>)
     = mset (rows \<lparr>shape = [3, 2], elems = [1, 2, 2, 1, 1, 2]\<rparr>) \<and>
   process_case_form int_dtype \<lparr>shape = [3, 2], elems = [2, 1, 1, 2, 1, 2]\<rparr> [2, 2]
     = process_case_form int_dtype \<lparr>shape = [3, 2], elems = [1, 2, 2, 1, 1, 2]\<rparr> [2, 2]"
proof -
  have v: "valid_case_form int_dtype \<lparr>shape = [3, 2], elems = [1, 2, 2, 1, 1, 2]\<rparr> [2, 2]"
    by code_simp
  have w: "wf \<lparr>shape = [3, 2], elems = [2, 1, 1, 2, 1, 2 :: int]\<rparr>" by (simp add: wf_def)
  have r: "rows \<lparr>shape = [3, 2], elems = [2, 1, 1, 2, 1, 2 :: int]\<rparr> = [[2, 1], [1, 2], [1, 2]]"
    "rows \<lparr>shape = [3, 2], elems = [1, 2, 2, 1, 1, 2 :: int]\<rparr> = [[1, 2], [2, 1], [1, 2]]"
    by code_simp+
  have m: "mset (rows \<lparr>shape = [3, 2], elems = [2, 1, 1, 2, 1, 2 :: int]\<rparr>)
     = mset (rows \<lparr>shape = [3, 2], elems = [1, 2, 2, 1, 1, 2]\<rparr>)"
    unfolding r by simp
  from process_case_form_row_order[OF v w _ m] v w m show ?thesis by simp
qed

text \<open>
  C1, as amended. On a 2-D array with one column per declared dimension whose cells
  convert to integers, \<open>_process_case_form\<close> returns a table exactly when every row
  has its indices, after the shift by one, within \<open>[-d, d)\<close> of their axes: the table
  that counts each row at the cell NumPy addresses with it. Otherwise it raises at the
  first row NumPy refuses, and returns no table: \<open>OverflowError\<close> when the first index
  of that row that is no C integer lies in \<open>[2^63, 2^64)\<close>, \<open>IndexError\<close> in every
  other case. The code validates no index itself. A raw category value 0 of a signed
  integer array is not refused: its index \<open>-1\<close> is within range, NumPy counts it from
  the end of the axis, and the row is counted in the last category. In an unsigned
  array \<open>0 - 1\<close> wraps to \<open>2^64 - 1\<close>, and the row is refused with \<open>OverflowError\<close>.
\<close>

theorem process_case_form_index_error:
  assumes "wf data" and "ndim data = 2" and "shape data ! 1 = length shp"
    and "converts dt data"
  shows "process_case_form dt data shp =
    (case refused_rows dt data shp of
       [] \<Rightarrow> Inr (histogram shp (map (row_offset dt shp) (rows data)))
     | r # rest \<Rightarrow> Inl (refused_with shp (projr (row_index dt r))))"
  using process_case_form_eq[OF assms] refused_rows_Nil[of dt data shp]
  by (cases "refused_rows dt data shp") simp_all

theorem process_case_form_index_error_witness:
  "wf \<lparr>shape = [1, 2], elems = [0, 1 :: int]\<rparr> \<and>
   ndim \<lparr>shape = [1, 2], elems = [0, 1 :: int]\<rparr> = 2 \<and>
   shape \<lparr>shape = [1, 2], elems = [0, 1 :: int]\<rparr> ! 1 = length [2, 2 :: nat] \<and>
   converts int_dtype \<lparr>shape = [1, 2], elems = [0, 1]\<rparr> \<and>
   converts uint64_dtype \<lparr>shape = [1, 2], elems = [0, 1]\<rparr> \<and>
   refused_rows int_dtype \<lparr>shape = [1, 2], elems = [0, 1]\<rparr> [2, 2] = [] \<and>
   map (row_offset int_dtype [2, 2]) (rows \<lparr>shape = [1, 2], elems = [0, 1]\<rparr>) = [2] \<and>
   process_case_form int_dtype \<lparr>shape = [1, 2], elems = [0, 1]\<rparr> [2, 2]
     = Inr (histogram [2, 2] [2]) \<and>
   refused_rows uint64_dtype \<lparr>shape = [1, 2], elems = [0, 1]\<rparr> [2, 2] = [[0, 1]] \<and>
   row_index uint64_dtype [0, 1] = Inr [2 ^ 64 - 1, 0] \<and>
   refused_with [2, 2] [2 ^ 64 - 1, 0] = OverflowError \<and>
   process_case_form uint64_dtype \<lparr>shape = [1, 2], elems = [0, 1]\<rparr> [2, 2]
     = Inl OverflowError \<and>
   wf \<lparr>shape = [1, 2], elems = [3, 1 :: int]\<rparr> \<and>
   ndim \<lparr>shape = [1, 2], elems = [3, 1 :: int]\<rparr> = 2 \<and>
   shape \<lparr>shape = [1, 2], elems = [3, 1 :: int]\<rparr> ! 1 = length [2, 2 :: nat] \<and>
   converts int_dtype \<lparr>shape = [1, 2], elems = [3, 1]\<rparr> \<and>
   refused_rows int_dtype \<lparr>shape = [1, 2], elems = [3, 1]\<rparr> [2, 2] = [[3, 1]] \<and>
   row_index int_dtype [3, 1] = Inr [2, 0] \<and>
   refused_with [2, 2] [2, 0] = IndexError \<and>
   process_case_form int_dtype \<lparr>shape = [1, 2], elems = [3, 1]\<rparr> [2, 2] = Inl IndexError"
proof -
  have h: "wf \<lparr>shape = [1, 2], elems = [0, 1 :: int]\<rparr>"
    "ndim \<lparr>shape = [1, 2], elems = [0, 1 :: int]\<rparr> = 2"
    "shape \<lparr>shape = [1, 2], elems = [0, 1 :: int]\<rparr> ! 1 = length [2, 2 :: nat]"
    by code_simp+
  have c: "converts int_dtype \<lparr>shape = [1, 2], elems = [0, 1]\<rparr>" by code_simp
  have c': "converts uint64_dtype \<lparr>shape = [1, 2], elems = [0, 1]\<rparr>" by code_simp
  have r: "refused_rows int_dtype \<lparr>shape = [1, 2], elems = [0, 1]\<rparr> [2, 2] = []"
    "map (row_offset int_dtype [2, 2]) (rows \<lparr>shape = [1, 2], elems = [0, 1]\<rparr>) = [2]"
    by code_simp+
  have r': "refused_rows uint64_dtype \<lparr>shape = [1, 2], elems = [0, 1]\<rparr> [2, 2] = [[0, 1]]"
    "row_index uint64_dtype [0, 1] = Inr [2 ^ 64 - 1, 0]"
    "refused_with [2, 2] [2 ^ 64 - 1, 0] = OverflowError"
    by code_simp+
  from process_case_form_index_error[OF h c] r
  have a: "process_case_form int_dtype \<lparr>shape = [1, 2], elems = [0, 1]\<rparr> [2, 2]
     = Inr (histogram [2, 2] [2])" by simp
  from process_case_form_index_error[OF h c'] r'
  have b: "process_case_form uint64_dtype \<lparr>shape = [1, 2], elems = [0, 1]\<rparr> [2, 2]
     = Inl OverflowError" by simp
  have k: "wf \<lparr>shape = [1, 2], elems = [3, 1 :: int]\<rparr>"
    "ndim \<lparr>shape = [1, 2], elems = [3, 1 :: int]\<rparr> = 2"
    "shape \<lparr>shape = [1, 2], elems = [3, 1 :: int]\<rparr> ! 1 = length [2, 2 :: nat]"
    "converts int_dtype \<lparr>shape = [1, 2], elems = [3, 1]\<rparr>"
    by code_simp+
  have q: "refused_rows int_dtype \<lparr>shape = [1, 2], elems = [3, 1]\<rparr> [2, 2] = [[3, 1]]"
    "row_index int_dtype [3, 1] = Inr [2, 0]"
    "refused_with [2, 2] [2, 0] = IndexError"
    by code_simp+
  from process_case_form_index_error[OF k] q
  have d: "process_case_form int_dtype \<lparr>shape = [1, 2], elems = [3, 1]\<rparr> [2, 2] = Inl IndexError"
    by simp
  from h c c' r r' a b k q d show ?thesis by simp
qed

text \<open>
  C1 as the specification states it, that a raw category value 0 raises an out-of-range
  failure, fails on the row \<open>[0, 1]\<close> of a signed integer array for the dimensions
  \<open>(2, 2)\<close>: no error is raised, and the row is counted in the cell \<open>[1, 0]\<close>.
\<close>

theorem process_case_form_raw_zero_counterexample:
  "process_case_form int_dtype \<lparr>shape = [1, 2], elems = [0, 1]\<rparr> [2, 2]
     = Inr \<lparr>shape = [2, 2], elems = [0, 0, 1, 0]\<rparr>"
  by code_simp

section \<open>Frequency form: the last row wins\<close>

lemma take_drop_concat:
  "\<forall>xs \<in> set xss. length xs = k \<Longrightarrow> i < length xss \<Longrightarrow>
     take k (drop (i * k) (concat xss)) = xss ! i"
proof (induction xss arbitrary: i)
  case Nil
  then show ?case by simp
next
  case (Cons xs xss)
  show ?case
  proof (cases i)
    case 0
    with Cons.prems show ?thesis by simp
  next
    case (Suc j)
    with Cons show ?thesis by simp
  qed
qed

lemma length_concat_same:
  "\<forall>xs \<in> set xss. length xs = k \<Longrightarrow> length (concat xss) = length xss * k"
  by (induction xss) simp_all

lemma rows_but_last_column:
  assumes "shape data = [n, m]" "wf data"
  shows "rows (but_last_column data) = map butlast (rows data)"
    and "wf (but_last_column data)"
    and "shape (but_last_column data) = [n, m - 1]"
proof -
  have len: "\<forall>xs \<in> set (map butlast (rows data)). length xs = m - 1"
    using length_rows_elem[OF assms] by auto
  have n: "length (rows data) = n" using assms(1) by (simp add: rows_2d[of _ n m])
  show sh: "shape (but_last_column data) = [n, m - 1]"
    using assms(1) by (simp add: but_last_column_def)
  show "wf (but_last_column data)"
    using length_concat_same[OF len] n sh by (simp add: wf_def but_last_column_def)
  have "map (\<lambda>i. take (m - 1) (drop (i * (m - 1)) (concat (map butlast (rows data))))) [0..<n]
      = map butlast (rows data)"
    using take_drop_concat[OF len] n by (intro nth_equalityI) simp_all
  moreover have "elems (but_last_column data) = concat (map butlast (rows data))"
    by (simp add: but_last_column_def)
  ultimately show "rows (but_last_column data) = map butlast (rows data)"
    by (simp add: rows_2d[OF sh])
qed

lemma iter_last_column:
  assumes "shape data = [n, m]"
  shows "\<exists>fs. iter (last_column data) = Inr fs \<and>
     map (int_of dt) fs = map (\<lambda>r. py_int dt (last r)) (rows data)"
proof -
  have n: "length (rows data) = n" using assms(1) by (simp add: rows_2d[of _ n m])
  let ?fs = "map (item (last_column data)) [0..<n]"
  have it: "iter (last_column data) = Inr ?fs"
    using assms by (simp add: iter_def last_column_def)
  have "map (int_of dt) ?fs = map (\<lambda>r. py_int dt (last r)) (rows data)"
  proof (rule nth_equalityI)
    show "length (map (int_of dt) ?fs) = length (map (\<lambda>r. py_int dt (last r)) (rows data))"
      using n by simp
  next
    fix i assume "i < length (map (int_of dt) ?fs)"
    then have i: "i < n" by simp
    then have "take (Suc 0) (drop i (map last (rows data))) = [last (rows data ! i)]"
      using n by (metis Cons_nth_drop_Suc length_map nth_map take0 take_Suc_Cons)
    then show "map (int_of dt) ?fs ! i = map (\<lambda>r. py_int dt (last r)) (rows data) ! i"
      using i n assms by (simp add: item_def int_of_def last_column_def)
  qed
  with it show ?thesis by blast
qed

lemma foldl_last_write:
  "foldl (\<lambda>d (off, v). if off = k then v else d) d ps =
     (if filter (\<lambda>(off, v). off = k) ps = [] then d
      else snd (last (filter (\<lambda>(off, v). off = k) ps)))"
proof (induction ps rule: rev_induct)
  case Nil
  then show ?case by simp
next
  case (snoc p ps)
  then show ?case by (cases p) auto
qed

lemma setitem_in_range:
  assumes "in_range (shape table) idx" "wf table" "- (2 ^ 63) \<le> v" "v < 2 ^ 63"
  shows "setitem table idx v = Inr (table\<lparr>elems :=
     (elems table)[ravel (shape table) (wrap (shape table) idx) := v]\<rparr>)"
    and "ravel (shape table) (wrap (shape table) idx) < length (elems table)"
proof -
  from resolve_in_range[OF assms(1)]
  have res: "resolve (shape table) idx = Inr (ravel (shape table) (wrap (shape table) idx), 1)"
    and lt: "ravel (shape table) (wrap (shape table) idx) < prod_list (shape table)" by simp_all
  from lt assms(2) show lt': "ravel (shape table) (wrap (shape table) idx) < length (elems table)"
    by (simp add: wf_def)
  show "setitem table idx v = Inr (table\<lparr>elems :=
     (elems table)[ravel (shape table) (wrap (shape table) idx) := v]\<rparr>)"
    using res lt' assms(3,4) by (simp add: setitem_def update_range_one)
qed

lemma fill_cells_in_range:
  assumes "map (int_tuple dt) cs = map Inr idxs"
    and "map (int_of dt) fs = map Inr vs"
    and "length cs = length fs"
    and "\<forall>idx \<in> set idxs. in_range (shape table) idx"
    and "\<forall>v \<in> set vs. - (2 ^ 63) \<le> v \<and> v < 2 ^ 63"
    and "wf table"
  shows "\<exists>t. fill_cells dt table (zip cs fs) = Inr t \<and> shape t = shape table \<and> wf t
    \<and> (\<forall>k < length (elems table). elems t ! k =
          foldl (\<lambda>d (off, v). if off = k then v else d) (elems table ! k)
            (zip (map (\<lambda>idx. ravel (shape table) (wrap (shape table) idx)) idxs) vs))"
  using assms
proof (induction cs arbitrary: table idxs fs vs)
  case Nil
  then show ?case by simp
next
  case (Cons c cs)
  then obtain idx rest where idxs: "idxs = idx # rest" and c: "int_tuple dt c = Inr idx"
    and cs: "map (int_tuple dt) cs = map Inr rest" by (cases idxs) auto
  from Cons.prems(3) obtain f fs' where fs: "fs = f # fs'" and l: "length cs = length fs'"
    by (cases fs) auto
  with Cons.prems(2) obtain v vs' where vs: "vs = v # vs'" and f: "int_of dt f = Inr v"
    and fs': "map (int_of dt) fs' = map Inr vs'" by (cases vs) auto
  let ?off = "ravel (shape table) (wrap (shape table) idx)"
  from Cons.prems idxs have ib: "in_range (shape table) idx" by simp
  from Cons.prems(5) vs have vr: "- (2 ^ 63) \<le> v" "v < 2 ^ 63" by simp_all
  define t1 where "t1 = table\<lparr>elems := (elems table)[?off := v]\<rparr>"
  have si: "setitem table idx v = Inr t1" and lt': "?off < length (elems table)"
    using setitem_in_range[OF ib Cons.prems(6) vr] by (simp_all add: t1_def)
  have sh: "shape t1 = shape table" and wf1: "wf t1"
    using Cons.prems(6) by (simp_all add: t1_def wf_def)
  have len1: "length (elems t1) = length (elems table)" by (simp add: t1_def)
  from Cons.prems(4) idxs sh have r1: "\<forall>idx \<in> set rest. in_range (shape t1) idx" by simp
  from Cons.prems(5) vs have r2: "\<forall>v \<in> set vs'. - (2 ^ 63) \<le> v \<and> v < 2 ^ 63" by simp
  from Cons.IH[OF cs fs' l r1 r2 wf1] obtain t where t: "fill_cells dt t1 (zip cs fs') = Inr t"
    "shape t = shape t1" "wf t"
    "\<forall>k < length (elems t1). elems t ! k =
          foldl (\<lambda>d (off, v). if off = k then v else d) (elems t1 ! k)
            (zip (map (\<lambda>idx. ravel (shape t1) (wrap (shape t1) idx)) rest) vs')"
    by blast
  have "fill_cells dt table (zip (c # cs) fs) = Inr t" using c f si t(1) fs by simp
  moreover have "shape t = shape table" using t(2) sh by simp
  moreover have "\<forall>k < length (elems table). elems t ! k =
          foldl (\<lambda>d (off, v). if off = k then v else d) (elems table ! k)
            (zip (map (\<lambda>idx. ravel (shape table) (wrap (shape table) idx)) idxs) vs)"
  proof (intro allI impI)
    fix k assume k: "k < length (elems table)"
    have "elems t1 ! k = (if ?off = k then v else elems table ! k)"
      using k lt' by (simp add: t1_def nth_list_update)
    with t(4) len1 sh k show "elems t ! k =
          foldl (\<lambda>d (off, v). if off = k then v else d) (elems table ! k)
            (zip (map (\<lambda>idx. ravel (shape table) (wrap (shape table) idx)) idxs) vs)"
      using idxs vs by simp
  qed
  ultimately show ?case using t(3) by blast
qed

lemma valid_frequency_row:
  assumes "valid_frequency_form dt data shp" "r \<in> set (rows data)"
  shows "\<exists>idx v. row_index dt (butlast r) = Inr idx \<and> in_bounds shp idx \<and>
     py_int dt (last r) = Inr v \<and> - (2 ^ 63) \<le> v \<and> v < 2 ^ 63"
proof -
  from assms have
    a: "case row_index dt (butlast r) of Inl e \<Rightarrow> False | Inr idx \<Rightarrow> in_bounds shp idx"
    and b: "case py_int dt (last r) of Inl e \<Rightarrow> False | Inr v \<Rightarrow> - (2 ^ 63) \<le> v \<and> v < 2 ^ 63"
    by (simp_all add: valid_frequency_form_def)
  from a obtain idx where "row_index dt (butlast r) = Inr idx" "in_bounds shp idx"
    by (cases "row_index dt (butlast r)") auto
  moreover from b obtain v where "py_int dt (last r) = Inr v" "- (2 ^ 63) \<le> v" "v < 2 ^ 63"
    by (cases "py_int dt (last r)") auto
  ultimately show ?thesis by blast
qed

text \<open>
  C4. On valid frequency-form input \<open>_process_frequency_form\<close> returns a table of the
  declared shape in which a cell addressed by no row is zero and a cell addressed by one
  row or more holds \<open>int(freq)\<close> of the last such row: the frequencies of earlier rows
  with the same index tuple are overwritten, not added.
\<close>

theorem process_frequency_form_assigns:
  assumes "valid_frequency_form dt data shp"
  shows "\<exists>table. process_frequency_form dt data shp = Inr table \<and> shape table = shp \<and>
     (\<forall>idx. in_bounds shp idx \<longrightarrow>
        cell table idx = Inr (if rows_at dt data idx = [] then 0
          else projr (py_int dt (last (last (rows_at dt data idx))))))"
proof -
  from assms have wfd: "wf data" and nd: "ndim data = 2" and m: "shape data ! 1 = length shp + 1"
    by (simp_all add: valid_frequency_form_def)
  from shape_2d[OF nd] obtain n m' where sh: "shape data = [n, m']" by blast
  have n: "length (rows data) = n" using sh by (simp add: rows_2d[of _ n m'])
  note bl = rows_but_last_column[OF sh wfd]
  obtain cs where it: "iter (map_array (minus_one dt) (but_last_column data)) = Inr cs"
    "length cs = n"
    using bl(3) by (simp add: iter_def map_array_def)
  from iter_last_column[OF sh, of dt] obtain fs where fs: "iter (last_column data) = Inr fs"
    "map (int_of dt) fs = map (\<lambda>r. py_int dt (last r)) (rows data)" by blast
  then have lfs: "length fs = n" using n by (metis length_map)
  define idxs where "idxs = map (\<lambda>r. projr (row_index dt (butlast r))) (rows data)"
  define vs where "vs = map (\<lambda>r. projr (py_int dt (last r))) (rows data)"
  have tup: "map (int_tuple dt) cs = map Inr idxs"
  proof -
    have "row_index dt = (\<lambda>r. sequence (map (\<lambda>x. py_int dt (minus_one dt x)) r))"
      by (rule ext) (simp add: row_index_def)
    moreover have "row_index dt (butlast r) = Inr (projr (row_index dt (butlast r)))"
      if "r \<in> set (rows data)" for r
      using valid_frequency_row[OF assms that] by auto
    ultimately show ?thesis using case_tuples[OF bl(3,2) it(1), of dt] bl(1)
      by (simp add: idxs_def)
  qed
  have fv: "map (int_of dt) fs = map Inr vs"
  proof -
    have "py_int dt (last r) = Inr (projr (py_int dt (last r)))"
      if "r \<in> set (rows data)" for r
      using valid_frequency_row[OF assms that] by auto
    then show ?thesis using fs(2) by (simp add: vs_def)
  qed
  have ir: "\<forall>idx \<in> set idxs. in_range (shape (zeros shp)) idx"
    using valid_frequency_row[OF assms] by (fastforce simp: idxs_def zeros_def in_bounds_in_range)
  have vr: "\<forall>v \<in> set vs. - (2 ^ 63) \<le> v \<and> v < 2 ^ 63"
    using valid_frequency_row[OF assms] by (fastforce simp: vs_def)
  have wz: "wf (zeros shp)" by (simp add: wf_def zeros_def)
  have l: "length cs = length fs" using it(2) lfs by simp
  from fill_cells_in_range[OF tup fv l ir vr wz] obtain t where
    t: "fill_cells dt (zeros shp) (zip cs fs) = Inr t" "shape t = shp" "wf t"
      "\<forall>k < prod_list shp. elems t ! k =
          foldl (\<lambda>d (off, v). if off = k then v else d) 0
            (zip (map (\<lambda>idx. ravel shp (wrap shp idx)) idxs) vs)"
    by (auto simp: zeros_def)
  have p: "process_frequency_form dt data shp = Inr t"
    using nd m it(1) fs(1) t(1) by (simp add: process_frequency_form_def)
  have c: "cell t idx = Inr (if rows_at dt data idx = [] then 0
          else projr (py_int dt (last (last (rows_at dt data idx)))))"
    if b: "in_bounds shp idx" for idx
  proof -
    let ?k = "ravel shp (map nat idx)"
    let ?g = "\<lambda>r. (ravel shp (wrap shp (projr (row_index dt (butlast r)))),
      projr (py_int dt (last r)))"
    from resolve_in_range[OF in_bounds_in_range[OF b]] wrap_in_bounds[OF b]
    have res: "resolve shp idx = Inr (?k, 1)" and lt: "?k < prod_list shp" by simp_all
    have z: "zip (map (\<lambda>idx. ravel shp (wrap shp idx)) idxs) vs = map ?g (rows data)"
      by (simp add: idxs_def vs_def zip_map_map zip_same_conv_map)
    have "filter (\<lambda>(off, v). off = ?k) (map ?g (rows data)) = map ?g (rows_at dt data idx)"
    proof -
      have "(ravel shp (wrap shp (projr (row_index dt (butlast r)))) = ?k)
          \<longleftrightarrow> row_index dt (butlast r) = Inr idx" if "r \<in> set (rows data)" for r
      proof -
        from valid_frequency_row[OF assms that] obtain j where
          j: "row_index dt (butlast r) = Inr j" "in_bounds shp j" by blast
        then show ?thesis using b in_bounds_ravel_inj[of shp j idx]
          by (auto simp: wrap_in_bounds)
      qed
      then have "filter (\<lambda>r. ravel shp (wrap shp (projr (row_index dt (butlast r)))) = ?k)
          (rows data) = rows_at dt data idx"
        unfolding rows_at_def by (intro filter_cong) simp_all
      then show ?thesis by (simp add: filter_map comp_def)
    qed
    then have "foldl (\<lambda>d (off, v). if off = ?k then v else d) 0 (map ?g (rows data))
      = (if rows_at dt data idx = [] then 0
         else projr (py_int dt (last (last (rows_at dt data idx)))))"
      by (simp add: foldl_last_write last_map)
    with t(4) lt z have "elems t ! ?k = (if rows_at dt data idx = [] then 0
         else projr (py_int dt (last (last (rows_at dt data idx)))))" by simp
    then show ?thesis using res lt t(2,3) by (simp add: cell_def wf_def)
  qed
  from p t(2) c show ?thesis by blast
qed

theorem process_frequency_form_assigns_witness:
  "valid_frequency_form int_dtype \<lparr>shape = [2, 3], elems = [1, 2, 5, 1, 2, 7]\<rparr> [2, 2] \<and>
   (\<exists>table. process_frequency_form int_dtype \<lparr>shape = [2, 3], elems = [1, 2, 5, 1, 2, 7]\<rparr> [2, 2]
        = Inr table \<and> shape table = [2, 2] \<and>
      cell table [0, 1] = Inr 7 \<and> cell table [1, 1] = Inr 0)"
proof -
  have v: "valid_frequency_form int_dtype \<lparr>shape = [2, 3], elems = [1, 2, 5, 1, 2, 7]\<rparr> [2, 2]"
    by code_simp
  have b: "in_bounds [2, 2] [0, 1]" "in_bounds [2, 2] [1, 1]" by code_simp+
  have c: "(if rows_at int_dtype \<lparr>shape = [2, 3], elems = [1, 2, 5, 1, 2, 7]\<rparr> [0, 1] = [] then 0
     else projr (py_int int_dtype (last (last
       (rows_at int_dtype \<lparr>shape = [2, 3], elems = [1, 2, 5, 1, 2, 7]\<rparr> [0, 1]))))) = 7"
    "(if rows_at int_dtype \<lparr>shape = [2, 3], elems = [1, 2, 5, 1, 2, 7]\<rparr> [1, 1] = [] then 0
     else projr (py_int int_dtype (last (last
       (rows_at int_dtype \<lparr>shape = [2, 3], elems = [1, 2, 5, 1, 2, 7]\<rparr> [1, 1]))))) = 0"
    by code_simp+
  from process_frequency_form_assigns[OF v] b c v show ?thesis by auto
qed

section \<open>The tables returned\<close>


lemma length_update_range [simp]: "length (update_range f off cnt xs) = length xs"
  by (simp add: update_range_def)












text \<open>
  A cell of an unsigned array that is not negative can come back negative: \<open>astype(int)\<close>
  takes the uint64 cell \<open>2^63\<close> to \<open>-2^63\<close>.
\<close>

lemma process_table_form_uint64_wraps:
  "cells_non_negative \<lparr>shape = [1], elems = [2 ^ 63]\<rparr> \<and>
   process_table_form uint64_dtype \<lparr>shape = [1], elems = [2 ^ 63]\<rparr> [1]
     = Inr \<lparr>shape = [1], elems = [- (2 ^ 63)]\<rparr> \<and>
   \<not> count_table [1] \<lparr>shape = [1], elems = [- (2 ^ 63)]\<rparr>"
  by code_simp





section \<open>Table form: the shape check\<close>



section \<open>Batches of cases\<close>

lemma accumulate_append:
  "accumulate dt n ao table (xs @ ys) =
     (case accumulate dt n ao table xs of Inl e \<Rightarrow> Inl e
      | Inr t \<Rightarrow> accumulate dt n ao t ys)"
  by (induction xs arbitrary: table) (auto split: sum.splits)

lemma accumulate_batches_concat:
  "\<forall>b \<in> set bs. iter b = Inr (f b) \<Longrightarrow>
     accumulate_batches dt n ao table bs = accumulate dt n ao table (concat (map f bs))"
  by (induction bs arbitrary: table) (auto simp: accumulate_append split: sum.splits)

lemma concat_map_blocks:
  "concat (map (\<lambda>i. map (\<lambda>j. f (i * r + j)) [0..<r]) [0..<b]) = map f [0..<b * r]"
proof (induction b)
  case 0
  then show ?case by simp
next
  case (Suc b)
  have "[0..<b * r + r] = [0..<b * r] @ [b * r..<b * r + r]"
    by (rule upt_add_eq_append) simp
  moreover have "map (\<lambda>j. j + b * r) [0..<r] = [b * r..<r + b * r]"
    by (rule map_add_upt)
  then have "map f [b * r..<r + b * r] = map (\<lambda>j. f (j + b * r)) [0..<r]"
    by (simp only: map_map[symmetric, of f "\<lambda>j. j + b * r", unfolded comp_def])
  moreover have "(\<lambda>j. f (b * r + j)) = (\<lambda>j. f (j + b * r))"
    by (simp only: add.commute)
  moreover have "Suc b * r = b * r + r" "r + b * r = b * r + r" by simp_all
  ultimately have "map f [0..<Suc b * r] = map f [0..<b * r] @ map (\<lambda>j. f (b * r + j)) [0..<r]"
    by (simp only: map_append)
  with Suc show ?case by simp
qed

lemma take_drop_block:
  assumes "j < r"
  shows "take c (drop (j * c) (take (r * c) (drop (i * (r * c)) es)))
    = take c (drop ((i * r + j) * c) es)"
proof -
  have "Suc j * c \<le> r * c" using assms by (intro mult_le_mono1) simp
  then have le: "c \<le> r * c - j * c" by simp
  have "drop (j * c) (take (r * c) (drop (i * (r * c)) es))
    = take (r * c - j * c) (drop (j * c) (drop (i * (r * c)) es))"
    by (rule drop_take)
  then have "take c (drop (j * c) (take (r * c) (drop (i * (r * c)) es)))
    = take c (drop (j * c) (drop (i * (r * c)) es))"
    using le by (simp only: take_take min_absorb1)
  moreover have "j * c + i * (r * c) = (i * r + j) * c" by (simp add: add_mult_distrib)
  ultimately show ?thesis by (simp only: drop_drop)
qed

text \<open>
  With an axis order supplied, a 3-D stack of batches gives what the 2-D array of all its
  rows gives, errors included.
\<close>

lemma gen_case_form_to_contingency_batches:
  assumes "shape cases = [b, r, c]"
  shows "gen_case_form_to_contingency dt cases shp (Some ao)
    = gen_case_form_to_contingency dt (concatenate_batches cases) shp (Some ao)"
proof -
  let ?row = "\<lambda>k. \<lparr>shape = [c], elems = take c (drop (k * c) (elems cases))\<rparr>"
  let ?f = "\<lambda>bt. map (item bt) [0..<r]"
  have it3: "iter cases = Inr (map (item cases) [0..<b])"
    using assms by (simp add: iter_def)
  have itb: "\<forall>bt \<in> set (map (item cases) [0..<b]). iter bt = Inr (?f bt)"
    using assms by (auto simp: iter_def item_def Let_def)
  have e: "item (item cases i) j = ?row (i * r + j)" if "j < r" for i j
    using that assms by (simp add: item_def Let_def take_drop_block)
  have "map ?f (map (item cases) [0..<b])
      = map (\<lambda>i. map (\<lambda>j. ?row (i * r + j)) [0..<r]) [0..<b]"
    by (auto intro!: map_cong simp: e)
  moreover have "concat (map (\<lambda>i. map (\<lambda>j. ?row (i * r + j)) [0..<r]) [0..<b])
      = map ?row [0..<b * r]"
    by (rule concat_map_blocks[of "\<lambda>k. \<lparr>shape = [c], elems = take c (drop (k * c) (elems cases))\<rparr>"])
  ultimately have "concat (map ?f (map (item cases) [0..<b])) = map ?row [0..<b * r]"
    by (simp only:)
  with accumulate_batches_concat[OF itb]
  have l: "accumulate_batches dt (length shp) ao (zeros shp) (map (item cases) [0..<b])
    = accumulate dt (length shp) ao (zeros shp) (map ?row [0..<b * r])" by simp
  have it2: "iter (concatenate_batches cases) = Inr (map ?row [0..<b * r])"
    using assms by (simp add: iter_def item_def Let_def concatenate_batches_def)
  have n3: "ndim cases = 3" "ndim (concatenate_batches cases) \<noteq> 3"
    using assms by (simp_all add: ndim_def concatenate_batches_def)
  show ?thesis
    unfolding gen_case_form_to_contingency_def default_axis_order_def
    using n3 it3 it2 l by (simp add: Let_def)
qed

text \<open>
  C6. A 3-D stack of batches is to give the table that the 2-D array of all its rows
  gives, with \<open>axis_order\<close> supplied or omitted. With \<open>axis_order\<close> omitted it does
  not: the default is read from \<open>cases.shape[1]\<close>, which for a stack is the number of
  rows of a batch, not the number of columns. One batch of the one row \<open>[1, 1]\<close> is
  counted in the cell \<open>[1, 0]\<close>, the row alone in the cell \<open>[1, 1]\<close>; one batch of three
  rows of two columns raises \<open>IndexError\<close>, the three rows alone are counted.
\<close>

theorem gen_case_form_to_contingency_batches_default:
  "concatenate_batches \<lparr>shape = [1, 1, 2], elems = [1, 1 :: int]\<rparr>
     = \<lparr>shape = [1, 2], elems = [1, 1]\<rparr> \<and>
   gen_case_form_to_contingency int_dtype \<lparr>shape = [1, 1, 2], elems = [1, 1]\<rparr> [2, 2] None
     = Inr \<lparr>shape = [2, 2], elems = [0, 0, 1, 0]\<rparr> \<and>
   gen_case_form_to_contingency int_dtype \<lparr>shape = [1, 2], elems = [1, 1]\<rparr> [2, 2] None
     = Inr \<lparr>shape = [2, 2], elems = [0, 0, 0, 1]\<rparr> \<and>
   concatenate_batches \<lparr>shape = [1, 3, 2], elems = [0, 0, 0, 1, 1, 1 :: int]\<rparr>
     = \<lparr>shape = [3, 2], elems = [0, 0, 0, 1, 1, 1]\<rparr> \<and>
   gen_case_form_to_contingency int_dtype
       \<lparr>shape = [1, 3, 2], elems = [0, 0, 0, 1, 1, 1]\<rparr> [2, 2] None
     = Inl IndexError \<and>
   gen_case_form_to_contingency int_dtype
       \<lparr>shape = [3, 2], elems = [0, 0, 0, 1, 1, 1]\<rparr> [2, 2] None
     = Inr \<lparr>shape = [2, 2], elems = [1, 1, 0, 1]\<rparr>"
  by code_simp

section \<open>The round trip through case form\<close>

lemma extend_cases_int:
  "extend_cases int_dtype acc cells =
     Inr (acc @ concat (map (\<lambda>(idx, c). replicate (nat c) (map int idx)) cells))"
  by (induction cells arbitrary: acc) (auto simp: int_dtype_def)

lemma unravel_ravel:
  "k < prod_list ds \<Longrightarrow>
     list_all2 (\<lambda>d i. i < d) ds (unravel ds k) \<and> ravel ds (unravel ds k) = k"
proof (induction ds arbitrary: k)
  case Nil
  then show ?case by simp
next
  case (Cons d ds)
  then have pos: "0 < prod_list ds" by (cases "prod_list ds") auto
  then have m: "k mod prod_list ds < prod_list ds" by simp
  have "k div prod_list ds < d"
    using Cons.prems pos by (simp add: less_mult_imp_div_less mult.commute)
  with Cons.IH[OF m] show ?case by simp
qed

lemma length_unravel [simp]: "length (unravel ds k) = length ds"
  by (induction ds arbitrary: k) simp_all

lemma unravel_in_bounds: "k < prod_list ds \<Longrightarrow> in_bounds ds (map int (unravel ds k))"
  using unravel_ravel[of k ds] by (auto simp: in_bounds_def list_all2_map2 elim!: list_all2_mono)

lemma count_list_replicate: "count_list (replicate n x) y = (if x = y then n else 0)"
  by (induction n) auto

lemma count_list_concat_replicate:
  "distinct ks \<Longrightarrow>
     count_list (concat (map (\<lambda>k. replicate (f k) k) ks)) j = (if j \<in> set ks then f j else 0)"
  by (induction ks) (auto simp: count_list_replicate)

lemma fill_index_identity:
  assumes "length cur = n" "length r = n" "i \<le> n"
  shows "fill_index int_dtype \<lparr>shape = [n], elems = r\<rparr> cur i (map int [i..<n])
    = Inr (take i cur @ drop i r)"
  using assms
proof (induction "n - i" arbitrary: i cur)
  case 0
  then show ?case by simp
next
  case (Suc m)
  then have i: "i < n" by simp
  then have u: "[i..<n] = i # [Suc i..<n]" by (rule upt_conv_Cons)
  have g: "getitem \<lparr>shape = [n], elems = r\<rparr> (int i) = Inr \<lparr>shape = [], elems = [r ! i]\<rparr>"
  proof -
    have "take (Suc 0) (drop i r) = [r ! i]"
      using i Suc.prems(2) by (metis Cons_nth_drop_Suc take0 take_Suc_Cons)
    moreover have "nat (int i mod int n) = i" using i by (simp add: nat_mod_distrib)
    ultimately show ?thesis using i by (simp add: getitem_def item_def)
  qed
  have io: "int_of int_dtype \<lparr>shape = [], elems = [r ! i]\<rparr> = Inr (r ! i)"
    by (simp add: int_of_def int_dtype_def)
  have ls: "list_setitem cur (int i) (r ! i) = Inr (cur[i := r ! i])"
    using i Suc.prems(1) by (simp add: list_setitem_def nat_mod_distrib)
  have "fill_index int_dtype \<lparr>shape = [n], elems = r\<rparr> (cur[i := r ! i]) (Suc i)
      (map int [Suc i..<n]) = Inr (take (Suc i) (cur[i := r ! i]) @ drop (Suc i) r)"
    using Suc.hyps(2) Suc.prems i by (intro Suc.hyps(1)) simp_all
  moreover have "take (Suc i) (cur[i := r ! i]) @ drop (Suc i) r = take i cur @ drop i r"
    using i Suc.prems(1,2)
    by (simp add: take_Suc_conv_app_nth Cons_nth_drop_Suc)
  ultimately show ?case using u g io ls by simp
qed

lemma get_full_index_identity:
  "length r = n \<Longrightarrow>
     get_full_index int_dtype n \<lparr>shape = [n], elems = r\<rparr> (map int [0..<n]) = Inr r"
  using fill_index_identity[of "replicate n 0" n r 0] by (simp add: get_full_index_def)

lemma accumulate_eq_count_cases:
  "map (\<lambda>c. get_full_index dt n c ao) cs = map (int_tuple dt') cs' \<Longrightarrow>
     accumulate dt n ao table cs = count_cases dt' table cs'"
proof (induction cs arbitrary: cs' table)
  case Nil
  then show ?case by simp
next
  case (Cons c cs)
  then obtain c' rest where "cs' = c' # rest" by (cases cs') auto
  with Cons show ?case by (auto split: sum.splits)
qed

lemma iter_np_array:
  assumes "L \<noteq> []" "\<forall>r \<in> set L. length r = n"
  shows "np_array L = \<lparr>shape = [length L, n], elems = concat L\<rparr>"
    and "iter (np_array L) = Inr (map (\<lambda>r. \<lparr>shape = [n], elems = r\<rparr>) L)"
proof -
  show a: "np_array L = \<lparr>shape = [length L, n], elems = concat L\<rparr>"
    using assms by (cases L) (simp_all add: np_array_def)
  have "map (\<lambda>i. \<lparr>shape = [n], elems = take n (drop (i * n) (concat L))\<rparr>) [0..<length L]
    = map (\<lambda>r. \<lparr>shape = [n], elems = r\<rparr>) L"
    using take_drop_concat[OF assms(2)] by (intro nth_equalityI) simp_all
  moreover have "item \<lparr>shape = [length L, n], elems = concat L\<rparr>
      = (\<lambda>i. \<lparr>shape = [n], elems = take n (drop (i * n) (concat L))\<rparr>)"
    by (rule ext) (simp add: item_def)
  ultimately show "iter (np_array L) = Inr (map (\<lambda>r. \<lparr>shape = [n], elems = r\<rparr>) L)"
    by (simp add: a iter_def)
qed

text \<open>
  A table of one dimension or more whose cells are not negative and not all zero comes
  back from the round trip.
\<close>

lemma round_trip_nonzero:
  assumes wfT: "wf T" and sh: "shape T \<noteq> []"
    and nn: "\<forall>x \<in> set (elems T). 0 \<le> x" and nz: "\<exists>x \<in> set (elems T). x \<noteq> 0"
  shows "\<exists>cases. gen_contingency_to_case_form int_dtype T = Inr cases \<and>
     gen_case_form_to_contingency int_dtype cases (shape T) None = Inr T"
proof -
  define es where "es = elems T"
  define shp where "shp = shape T"
  define n where "n = length shp"
  define ks where "ks = filter (\<lambda>k. es ! k \<noteq> 0) [0..<length es]"
  define L where "L = concat (map (\<lambda>k. replicate (nat (es ! k)) (map int (unravel shp k))) ks)"
  have P: "length es = prod_list shp" using wfT by (simp add: wf_def es_def shp_def)
  have ksP: "\<forall>k \<in> set ks. k < prod_list shp" using P by (auto simp: ks_def)
  have "nonzero_cells int_dtype T = map (\<lambda>k. (unravel shp k, es ! k)) ks"
    by (simp add: nonzero_cells_def ks_def es_def shp_def int_dtype_def)
  then have g1: "gen_contingency_to_case_form int_dtype T = Inr (np_array L)"
    using sh by (simp add: gen_contingency_to_case_form_def extend_cases_int L_def comp_def)
  have Ln: "\<forall>r \<in> set L. length r = n" by (auto simp: L_def n_def)
  have Lne: "L \<noteq> []"
  proof -
    from nz obtain k where k: "k < length es" "es ! k \<noteq> 0"
      by (auto simp: es_def in_set_conv_nth)
    moreover have "0 \<le> es ! k" using nn k(1) by (simp add: es_def)
    ultimately have "0 < es ! k" by simp
    moreover have "k \<in> set ks" using k by (simp add: ks_def)
    ultimately have "replicate (nat (es ! k)) (map int (unravel shp k)) \<noteq> []"
      "k \<in> set ks" by simp_all
    then show ?thesis unfolding L_def by (auto simp del: replicate_empty)
  qed
  note A = iter_np_array[OF Lne Ln]
  let ?cs = "map (\<lambda>r. \<lparr>shape = [n], elems = r\<rparr>) L"
  have ao: "default_axis_order (np_array L) None = Inr (map int [0..<n])"
    by (simp add: default_axis_order_def A(1) ndim_def)
  have nd: "ndim (np_array L) \<noteq> 3" by (simp add: A(1) ndim_def)
  have "map (\<lambda>c. get_full_index int_dtype n c (map int [0..<n])) ?cs = map Inr L"
    using Ln by (simp add: get_full_index_identity)
  moreover have tup: "map (int_tuple int_dtype) ?cs = map Inr L"
    using Ln by (simp add: int_tuple_1d int_dtype_def)
  ultimately have acc: "accumulate int_dtype n (map int [0..<n]) (zeros shp) ?cs
      = count_cases int_dtype (zeros shp) ?cs"
    by (intro accumulate_eq_count_cases) simp
  have g2: "gen_case_form_to_contingency int_dtype (np_array L) shp None
      = count_cases int_dtype (zeros shp) ?cs"
    using ao nd A(2) acc by (simp add: gen_case_form_to_contingency_def n_def)
  have ir: "\<forall>idx \<in> set L. in_range (shape (zeros shp)) idx"
    using ksP by (auto simp: L_def zeros_def intro!: in_bounds_in_range unravel_in_bounds)
  have wz: "wf (zeros shp)" by (simp add: wf_def zeros_def)
  from count_cases_in_range[OF tup ir wz] obtain t where
    t: "count_cases int_dtype (zeros shp) ?cs = Inr t" "shape t = shp" "wf t"
      "\<forall>k < prod_list shp. elems t ! k =
          int (count_list (map (\<lambda>idx. ravel shp (wrap shp idx)) L) k)"
    by (auto simp: zeros_def)
  have offs: "map (\<lambda>idx. ravel shp (wrap shp idx)) L
      = concat (map (\<lambda>k. replicate (nat (es ! k)) k) ks)"
  proof -
    have "ravel shp (wrap shp (map int (unravel shp k))) = k" if "k \<in> set ks" for k
    proof -
      from that ksP have "k < prod_list shp" by simp
      from unravel_in_bounds[OF this] unravel_ravel[OF this] show ?thesis
        by (simp add: wrap_in_bounds comp_def)
    qed
    then show ?thesis by (simp add: L_def map_concat comp_def cong: map_cong)
  qed
  have "elems t = es"
  proof (rule nth_equalityI)
    show "length (elems t) = length es" using t(2,3) P by (simp add: wf_def)
  next
    fix j assume "j < length (elems t)"
    then have j: "j < prod_list shp" using t(2,3) by (simp add: wf_def)
    have "distinct ks" by (simp add: ks_def)
    from count_list_concat_replicate[OF this, of "\<lambda>k. nat (es ! k)" j]
    have "count_list (concat (map (\<lambda>k. replicate (nat (es ! k)) k) ks)) j = nat (es ! j)"
      using j P by (auto simp: ks_def)
    moreover have "0 \<le> es ! j" using nn j P by (simp add: es_def)
    ultimately show "elems t ! j = es ! j" using t(4) j offs by simp
  qed
  with t(2) have "t = T" by (simp add: es_def shp_def)
  with g1 g2 t(1) show ?thesis by (auto simp: shp_def)
qed

text \<open>
  C2. \<open>gen_case_form_to_contingency(gen_contingency_to_case_form(T), shape=T.shape)\<close>
  is to return \<open>T\<close> for every table of counts. On a table of zeros it does not:
  \<open>np.array([])\<close> of no cases is the 1-D array of shape \<open>(0,)\<close>, and
  \<open>gen_case_form_to_contingency\<close> raises \<open>IndexError\<close> on its \<open>cases.shape[1]\<close>.
\<close>

theorem round_trip_zero_table:
  "gen_contingency_to_case_form int_dtype \<lparr>shape = [2, 2], elems = [0, 0, 0, 0]\<rparr>
     = Inr \<lparr>shape = [0], elems = []\<rparr> \<and>
   gen_case_form_to_contingency int_dtype \<lparr>shape = [0], elems = []\<rparr> [2, 2] None
     = Inl IndexError"
  by code_simp

section \<open>Category mapping: what is passed through and what is named\<close>

lemma mapped_upto_0: "mapped_upto 0 cm vl a = a"
  by (simp add: mapped_upto_def map_nth)

lemma mapped_upto_n_vars: "mapped_upto (n_vars vl (n_cols a)) cm vl a = mapped cm vl a"
  by (simp add: mapped_upto_def mapped_def mapped_cell_def)

lemma mapped_upto_fields [simp]:
  "n_cols (mapped_upto j cm vl a) = n_cols a"
  "n_rows (mapped_upto j cm vl a) = n_rows a"
  "length (objs (mapped_upto j cm vl a)) = length (objs a)"
  by (simp_all add: mapped_upto_def)

lemma mapped_upto_Suc_None:
  assumes "cm (var_name vl j) = None"
  shows "mapped_upto (Suc j) cm vl a = mapped_upto j cm vl a"
proof -
  have "(if k mod n_cols a < Suc j then mapped_cell cm vl a k else objs a ! k)
      = (if k mod n_cols a < j then mapped_cell cm vl a k else objs a ! k)" for k
    using assms by (cases "k mod n_cols a = j") (auto simp: mapped_cell_def)
  then show ?thesis by (simp add: mapped_upto_def)
qed

lemma mapped_upto_Suc_Some:
  assumes "cm (var_name vl j) = Some vm" "j < n_vars vl (n_cols a)" "j < n_cols a"
    and "wf_objects a"
  shows "get_column a j = Inr (map (\<lambda>r. objs a ! (r * n_cols a + j)) [0..<n_rows a])"
    and "set_column (mapped_upto j cm vl a) j
       (map (\<lambda>x. map_category x vm) (map (\<lambda>r. objs a ! (r * n_cols a + j)) [0..<n_rows a]))
     = Inr (mapped_upto (Suc j) cm vl a)"
proof -
  define vals where
    "vals = map (\<lambda>x. map_category x vm) (map (\<lambda>r. objs a ! (r * n_cols a + j)) [0..<n_rows a])"
  define old where "old = objs (mapped_upto j cm vl a)"
  show "get_column a j = Inr (map (\<lambda>r. objs a ! (r * n_cols a + j)) [0..<n_rows a])"
    using assms(3) by (simp add: get_column_def)
  have "(if k mod n_cols a = j then vals ! (k div n_cols a) else old ! k)
      = (if k mod n_cols a < Suc j then mapped_cell cm vl a k else objs a ! k)"
    if k: "k < length (objs a)" for k
  proof (cases "k mod n_cols a = j")
    case True
    have "k < n_cols a * n_rows a" using k assms(4) by (simp add: wf_objects_def mult.commute)
    then have d: "k div n_cols a < n_rows a"
      by (simp add: less_mult_imp_div_less mult.commute)
    have "k div n_cols a * n_cols a + j = k" using True by (metis div_mult_mod_eq)
    with True d assms(1,2) show ?thesis by (simp add: mapped_cell_def vals_def)
  next
    case False
    with k show ?thesis by (auto simp: mapped_upto_def old_def)
  qed
  then have e: "map (\<lambda>k. if k mod n_cols a = j then vals ! (k div n_cols a) else old ! k)
        [0..<length (objs a)]
      = map (\<lambda>k. if k mod n_cols a < Suc j then mapped_cell cm vl a k else objs a ! k)
          [0..<length (objs a)]"
    by (intro map_cong refl) simp
  have "set_column (mapped_upto j cm vl a) j vals
      = Inr ((mapped_upto j cm vl a)\<lparr>objs :=
          map (\<lambda>k. if k mod n_cols a = j then vals ! (k div n_cols a) else old ! k)
            [0..<length (objs a)]\<rparr>)"
    using assms(3) by (simp add: set_column_def old_def)
  also have "(mapped_upto j cm vl a)\<lparr>objs :=
          map (\<lambda>k. if k mod n_cols a = j then vals ! (k div n_cols a) else old ! k)
            [0..<length (objs a)]\<rparr> = mapped_upto (Suc j) cm vl a"
    unfolding e by (simp add: mapped_upto_def)
  finally show "set_column (mapped_upto j cm vl a) j
       (map (\<lambda>x. map_category x vm) (map (\<lambda>r. objs a ! (r * n_cols a + j)) [0..<n_rows a]))
     = Inr (mapped_upto (Suc j) cm vl a)"
    by (simp only: vals_def)
qed

lemma map_columns_from:
  assumes "wf_objects a" "nv = n_vars vl (n_cols a)" "nv \<le> n_cols a" "j \<le> nv"
  shows "map_columns cm vl a (mapped_upto j cm vl a) [j..<nv] = Inr (mapped cm vl a)"
  using assms(4)
proof (induction "nv - j" arbitrary: j)
  case 0
  then have "j = nv" by simp
  then show ?case using assms(2) by (simp add: mapped_upto_n_vars)
next
  case (Suc d)
  then have j: "j < nv" by simp
  then have u: "[j..<nv] = j # [Suc j..<nv]" by (rule upt_conv_Cons)
  have ih: "map_columns cm vl a (mapped_upto (Suc j) cm vl a) [Suc j..<nv] = Inr (mapped cm vl a)"
    using Suc.hyps(2) j by (intro Suc.hyps(1)) simp_all
  show ?case
  proof (cases "cm (var_name vl j)")
    case None
    with u ih show ?thesis by (simp add: mapped_upto_Suc_None)
  next
    case (Some vm)
    have a: "j < n_vars vl (n_cols a)" "j < n_cols a" using j assms(2,3) by simp_all
    from mapped_upto_Suc_Some[of cm vl j vm a, OF Some a assms(1)] u ih Some
    show ?thesis by simp
  qed
qed

lemma map_columns_mapped:
  assumes "wf_objects a" "n_vars vl (n_cols a) \<le> n_cols a"
  shows "map_columns cm vl a a [0..<n_vars vl (n_cols a)] = Inr (mapped cm vl a)"
  using map_columns_from[OF assms(1) refl assms(2), of 0 cm] by (simp add: mapped_upto_0)

lemma sequence_error_mem: "sequence xs = Inl e \<Longrightarrow> Inl e \<in> set xs"
  by (induction xs) (auto split: sum.splits)

lemma sequence_all_Inr: "\<forall>x \<in> set xs. \<not> isl x \<Longrightarrow> sequence xs = Inr (map projr xs)"
  by (induction xs) (auto split: sum.splits)

lemma sequence_Inr_all: "sequence xs = Inr ys \<Longrightarrow> \<forall>x \<in> set xs. \<not> isl x"
  by (induction xs arbitrary: ys) (auto split: sum.splits)

lemma sequence_some_Inl:
  assumes "\<exists>x \<in> set xs. isl x"
  shows "\<exists>e. sequence xs = Inl e"
proof (cases "sequence xs")
  case (Inl e)
  then show ?thesis by blast
next
  case (Inr ys)
  from sequence_Inr_all[OF this] assms show ?thesis by blast
qed

lemma strings_filter: "strings (filter (\<lambda>x. \<not> is_int_or_float x) xs) = strings xs"
  by (induction xs rule: strings.induct) (simp_all add: is_int_or_float_def)

lemma filter_strings_empty:
  "filter (\<lambda>x. \<not> is_int_or_float x) xs = [] \<longleftrightarrow> (\<forall>s. PyStr s \<notin> set xs)"
  by (induction xs rule: strings.induct) (auto simp: is_int_or_float_def)

lemma set_strings: "set (strings xs) = {s. PyStr s \<in> set xs}"
  by (induction xs rule: strings.induct) auto

text \<open>
  C8, as amended. For a well-formed array of strings and numbers in case or frequency
  form, with no more variables than columns: the per-column mapping trims each string
  cell of a mapped variable's column and replaces it by its mapped integer, and a label
  absent from the mapping stays as the trimmed string, not the string as it was. When
  the integers of the mapped array convert and \<open>float\<close> fails on strings with
  \<open>ValueError\<close> only, the coercion fails if and only if some string of the mapped array
  is not numeric, and the failure then names the set of all the strings of the mapped
  array, numeric ones and those of unmapped columns included; otherwise the array of
  floats is returned.
\<close>

theorem apply_category_mapping_labels:
  assumes "wf_objects a"
    and "data_form = ''case_form'' \<or> data_form = ''frequency_form''"
    and "n_vars var_list (n_cols a) \<le> n_cols a"
    and "\<forall>n. PyInt n \<in> set (objs (mapped category_map var_list a))
          \<longrightarrow> \<not> isl (float_of_int fo n)"
    and "\<forall>s e. float_of_str fo s = Inl e \<longrightarrow> is_ValueError e"
  shows "map_columns category_map var_list a a [0..<n_vars var_list (n_cols a)]
      = Inr (mapped category_map var_list a) \<and>
    apply_category_mapping fo (Objects a) category_map var_list data_form =
     (if \<exists>s. PyStr s \<in> set (objs (mapped category_map var_list a)) \<and> isl (float_of_str fo s)
      then Inl (ValueErrorOf ''Could not convert categories to numeric: ''
             (set (strings (objs (mapped category_map var_list a)))))
      else Inr \<lparr>shape = [n_rows a, n_cols a],
             elems = map (\<lambda>x. projr (to_float fo x)) (objs (mapped category_map var_list a))\<rparr>)"
proof -
  let ?R = "mapped category_map var_list a"
  have m: "map_columns category_map var_list a a [0..<n_vars var_list (n_cols a)] = Inr ?R"
    using assms(1,3) by (rule map_columns_mapped)
  have f: "n_rows ?R = n_rows a" "n_cols ?R = n_cols a" by (simp_all add: mapped_def)
  have ok: "\<not> isl (to_float fo x)" if "x \<in> set (objs ?R)" "\<forall>s. x \<noteq> PyStr s" for x
  proof (cases x)
    case (PyStr s)
    with that(2) show ?thesis by simp
  next
    case (PyInt n)
    with that(1) assms(4) show ?thesis by (simp add: to_float_def)
  next
    case (PyFloat f)
    then show ?thesis by (simp add: to_float_def)
  qed
  have step: "apply_category_mapping fo (Objects a) category_map var_list data_form =
      (case astype_float fo ?R of Inr r \<Rightarrow> Inr r
       | Inl e \<Rightarrow> if is_ValueError e
           then (let bad_values = filter (\<lambda>x. \<not> is_int_or_float x) (objs ?R)
                 in if bad_values \<noteq> []
                    then Inl (ValueErrorOf ''Could not convert categories to numeric: ''
                      (set (strings bad_values)))
                    else Inl e)
           else Inl e)"
    using assms(2) m by (auto simp: apply_category_mapping_def)
  show ?thesis
  proof (cases "\<exists>s. PyStr s \<in> set (objs ?R) \<and> isl (float_of_str fo s)")
    case True
    then obtain s where s: "PyStr s \<in> set (objs ?R)" "isl (float_of_str fo s)" by blast
    then have "\<exists>x \<in> set (map (to_float fo) (objs ?R)). isl x"
      by (auto simp: to_float_def intro!: bexI[of _ "PyStr s"])
    from sequence_some_Inl[OF this] obtain e where
      e: "sequence (map (to_float fo) (objs ?R)) = Inl e" by blast
    from sequence_error_mem[OF e] obtain x where x: "x \<in> set (objs ?R)" "to_float fo x = Inl e"
      by auto
    then obtain t where "x = PyStr t" using ok[of x] by (cases x) auto
    with x(2) assms(5) have ve: "is_ValueError e" by (auto simp: to_float_def)
    have ne: "filter (\<lambda>x. \<not> is_int_or_float x) (objs ?R) \<noteq> []"
      using s(1) by (simp add: filter_strings_empty) blast
    have "astype_float fo ?R = Inl e" using e by (simp add: astype_float_def)
    with step ve ne True m show ?thesis by (simp add: strings_filter Let_def)
  next
    case False
    have "\<forall>x \<in> set (map (to_float fo) (objs ?R)). \<not> isl x"
    proof
      fix y assume "y \<in> set (map (to_float fo) (objs ?R))"
      then obtain x where x: "x \<in> set (objs ?R)" "y = to_float fo x" by auto
      show "\<not> isl y"
      proof (cases "\<exists>s. x = PyStr s")
        case True
        with x False show ?thesis by (auto simp: to_float_def)
      next
        case False
        with ok[OF x(1)] x(2) show ?thesis by simp
      qed
    qed
    from sequence_all_Inr[OF this]
    have "astype_float fo ?R = Inr \<lparr>shape = [n_rows a, n_cols a],
        elems = map (\<lambda>x. projr (to_float fo x)) (objs ?R)\<rparr>"
      by (simp add: astype_float_def f comp_def)
    with step False m show ?thesis by simp
  qed
qed

theorem apply_category_mapping_labels_witness:
  "wf_objects \<lparr>n_rows = 2, n_cols = 2,
      objs = [PyStr '' a '', PyStr ''3'', PyStr '' x '', PyInt 4 :: pyfloat obj]\<rparr> \<and>
   n_vars None 2 \<le> (2 :: nat) \<and>
   mapped [''0'' \<mapsto> [''a'' \<mapsto> 1]] None \<lparr>n_rows = 2, n_cols = 2,
      objs = [PyStr '' a '', PyStr ''3'', PyStr '' x '', PyInt 4 :: pyfloat obj]\<rparr>
     = \<lparr>n_rows = 2, n_cols = 2, objs = [PyInt 1, PyStr ''3'', PyStr ''x'', PyInt 4]\<rparr> \<and>
   float_of_int py_float_ops 1 = Inr (FloatOfInt 1) \<and>
   float_of_int py_float_ops 4 = Inr (FloatOfInt 4) \<and>
   float_of_str py_float_ops ''3'' = Inr (FloatOfStr ''3'') \<and>
   isl (float_of_str py_float_ops ''x'') \<and>
   apply_category_mapping py_float_ops (Objects \<lparr>n_rows = 2, n_cols = 2,
      objs = [PyStr '' a '', PyStr ''3'', PyStr '' x '', PyInt 4]\<rparr>)
      [''0'' \<mapsto> [''a'' \<mapsto> 1]] None ''case_form''
     = Inl (ValueErrorOf ''Could not convert categories to numeric: '' {''3'', ''x''})"
proof -
  let ?a = "\<lparr>n_rows = 2, n_cols = 2,
      objs = [PyStr '' a '', PyStr ''3'', PyStr '' x '', PyInt 4 :: pyfloat obj]\<rparr>"
  let ?cm = "[''0'' \<mapsto> [''a'' \<mapsto> (1::int)]]"
  have w: "wf_objects ?a" by (simp add: wf_objects_def)
  have n: "n_vars None (n_cols ?a) \<le> n_cols ?a" by (simp add: n_vars_def)
  have m: "mapped ?cm None ?a
     = \<lparr>n_rows = 2, n_cols = 2, objs = [PyInt 1, PyStr ''3'', PyStr ''x'', PyInt 4]\<rparr>"
    by code_simp
  have c: "float_of_int py_float_ops 1 = Inr (FloatOfInt 1)"
    "float_of_int py_float_ops 4 = Inr (FloatOfInt 4)"
    "float_of_str py_float_ops ''3'' = Inr (FloatOfStr ''3'')"
    "isl (float_of_str py_float_ops ''x'')"
    by code_simp+
  have i: "\<forall>n. PyInt n \<in> set (objs (mapped ?cm None ?a)) \<longrightarrow> \<not> isl (float_of_int py_float_ops n)"
    unfolding m using c(1,2) by auto
  have s: "\<forall>s e. float_of_str py_float_ops s = Inl e \<longrightarrow> is_ValueError e"
    by (auto simp: py_float_ops_def is_ValueError_def)
  have x: "\<exists>s. PyStr s \<in> set (objs (mapped ?cm None ?a)) \<and> isl (float_of_str py_float_ops s)"
    unfolding m using c(4) by auto
  have t: "set (strings (objs (mapped ?cm None ?a))) = {''3'', ''x''}"
    unfolding m by simp
  from apply_category_mapping_labels[OF w _ n i s, of "''case_form''"] x t w n m c
  show ?thesis by (simp add: n_vars_def)
qed

text \<open>
  C8 as the specification states it, that an absent label is passed through unchanged
  and that the failure names the unconvertible values, fails on the row \<open>[" x ", "3"]\<close> with a mapping for the first
  column that has no \<open>x\<close>: the failure names \<open>x\<close>, trimmed, and also \<open>3\<close>, which
  \<open>float\<close> converts.
\<close>

theorem apply_category_mapping_counterexample:
  "apply_category_mapping py_float_ops
      (Objects \<lparr>n_rows = 1, n_cols = 2, objs = [PyStr '' x '', PyStr ''3'']\<rparr>)
      [''0'' \<mapsto> [''a'' \<mapsto> 1]] None ''case_form''
     = Inl (ValueErrorOf ''Could not convert categories to numeric: '' {''x'', ''3''}) \<and>
   float_of_str py_float_ops ''3'' = Inr (FloatOfStr ''3'')"
  by code_simp

section \<open>The caller's arrays\<close>

lemma lookup_update:
  "lookup (s[a := x]) b = (if b < length s then Some (if b = a then x else s ! b) else None)"
  by (simp add: lookup_def)

lemma lookup_Some: "lookup s a = Some x \<longleftrightarrow> a < length s \<and> s ! a = x"
  by (auto simp: lookup_def)

lemma count_cases_st_frame:
  "count_cases_st dt data table is s = (r, s') \<Longrightarrow>
     length s' = length s \<and> (\<forall>a. a \<noteq> table \<longrightarrow> s' ! a = s ! a) \<and>
     (\<forall>t. r = Inr t \<longrightarrow> t = table) \<and>
     ((\<exists>T. lookup s table = Some (Tab T)) \<longrightarrow> (\<exists>T. lookup s' table = Some (Tab T)))"
proof (induction "is" arbitrary: s)
  case Nil
  then show ?case by auto
next
  case (Cons i "is")
  show ?case
  proof (cases "\<exists>d t idx t'. lookup s data = Some (Num d) \<and> lookup s table = Some (Tab t)
      \<and> int_tuple dt (item d i) = Inr idx \<and> iadd t idx 1 = Inr t'")
    case True
    then obtain d t idx t' where h: "lookup s data = Some (Num d)" "lookup s table = Some (Tab t)"
      "int_tuple dt (item d i) = Inr idx" "iadd t idx 1 = Inr t'" by blast
    with Cons.prems have "count_cases_st dt data table is (s[table := Tab t']) = (r, s')"
      by simp
    from Cons.IH[OF this] h(2) show ?thesis
      by (auto simp: lookup_update lookup_Some)
  next
    case False
    with Cons.prems have "s' = s \<and> (\<exists>e. r = Inl e)"
      by (auto split: option.splits array.splits sum.splits)
    then show ?thesis by auto
  qed
qed

lemma fill_cells_st_frame:
  "fill_cells_st dt cases data table is s = (r, s') \<Longrightarrow>
     length s' = length s \<and> (\<forall>a. a \<noteq> table \<longrightarrow> s' ! a = s ! a) \<and>
     (\<forall>t. r = Inr t \<longrightarrow> t = table) \<and>
     ((\<exists>T. lookup s table = Some (Tab T)) \<longrightarrow> (\<exists>T. lookup s' table = Some (Tab T)))"
proof (induction "is" arbitrary: s)
  case Nil
  then show ?case by auto
next
  case (Cons i "is")
  show ?case
  proof (cases "\<exists>c d t idx v t'. lookup s cases = Some (Num c) \<and> lookup s data = Some (Num d)
      \<and> lookup s table = Some (Tab t) \<and> int_tuple dt (item c i) = Inr idx
      \<and> int_of dt (item (last_column d) i) = Inr v \<and> setitem t idx v = Inr t'")
    case True
    then obtain c d t idx v t' where h: "lookup s cases = Some (Num c)"
      "lookup s data = Some (Num d)" "lookup s table = Some (Tab t)"
      "int_tuple dt (item c i) = Inr idx" "int_of dt (item (last_column d) i) = Inr v"
      "setitem t idx v = Inr t'" by blast
    with Cons.prems have "fill_cells_st dt cases data table is (s[table := Tab t']) = (r, s')"
      by simp
    from Cons.IH[OF this] h(3) show ?thesis
      by (auto simp: lookup_update lookup_Some)
  next
    case False
    with Cons.prems have "s' = s \<and> (\<exists>e. r = Inl e)"
      by (auto split: option.splits array.splits sum.splits)
    then show ?thesis by auto
  qed
qed

lemma map_columns_st_frame:
  "map_columns_st cm vl data result is s = (r, s') \<Longrightarrow>
     length s' = length s \<and> (\<forall>a. a \<noteq> result \<longrightarrow> s' ! a = s ! a) \<and>
     (\<forall>t. r = Inr t \<longrightarrow> t = result)"
proof (induction "is" arbitrary: s)
  case Nil
  then show ?case by auto
next
  case (Cons i "is")
  show ?case
  proof (cases "cm (var_name vl i)")
    case None
    with Cons.prems have "map_columns_st cm vl data result is s = (r, s')" by simp
    from Cons.IH[OF this] show ?thesis .
  next
    case (Some vm)
    show ?thesis
    proof (cases "\<exists>d r0 xs r'. lookup s data = Some (Obj d) \<and> lookup s result = Some (Obj r0)
        \<and> get_column d i = Inr xs
        \<and> set_column r0 i (map (\<lambda>x. map_category x vm) xs) = Inr r'")
      case True
      then obtain d r0 xs r' where h: "lookup s data = Some (Obj d)"
        "lookup s result = Some (Obj r0)" "get_column d i = Inr xs"
        "set_column r0 i (map (\<lambda>x. map_category x vm) xs) = Inr r'" by blast
      with Cons.prems Some
      have "map_columns_st cm vl data result is (s[result := Obj r']) = (r, s')" by simp
      from Cons.IH[OF this] show ?thesis by auto
    next
      case False
      with Cons.prems Some have "s' = s \<and> (\<exists>e. r = Inl e)"
        by (auto split: option.splits array.splits sum.splits)
      then show ?thesis by auto
    qed
  qed
qed

lemma frame_after_alloc:
  assumes "length s' = length s2" "\<forall>a. a \<noteq> t \<longrightarrow> s' ! a = s2 ! a"
    and "length s \<le> t" "take (length s) s2 = s"
  shows "take (length s) s' = s"
proof (rule nth_equalityI)
  show "length (take (length s) s') = length s"
    using assms(1,4) by (metis length_take)
next
  fix a assume "a < length (take (length s) s')"
  then have a: "a < length s" by simp
  then have "s' ! a = s2 ! a" using assms(2,3) by simp
  moreover have "s2 ! a = s ! a" using a assms(4) by (metis nth_take)
  ultimately show "take (length s) s' ! a = s ! a" using a by simp
qed

lemma preserved_refl [simp]: "preserved s s"
  by (simp add: preserved_def)

lemma preserved_lookup: "preserved s s' \<Longrightarrow> a < length s \<Longrightarrow> lookup s' a = lookup s a"
  unfolding preserved_def lookup_def
  by (metis length_take min_less_iff_conj nth_take)

lemma fresh_table_Inl [simp]: "fresh_table s s' (Inl e)"
  by (simp add: fresh_table_def)

lemma process_case_form_st_frame:
  assumes "process_case_form_st dt data shp s = (r, s')"
  shows "preserved s s' \<and> fresh_table s s' r"
proof (cases "\<exists>d. lookup s data = Some (Num d) \<and> ndim d = 2 \<and> shape d ! 1 = length shp")
  case True
  then obtain d where d: "lookup s data = Some (Num d)" "ndim d = 2" "shape d ! 1 = length shp"
    by blast
  let ?s2 = "s @ [Num (map_array (minus_one dt) d)] @ [Tab (zeros shp)]"
  from assms d have c: "count_cases_st dt (length s) (Suc (length s)) [0..<shape d ! 0] ?s2
      = (r, s')"
    by (simp add: process_case_form_st_def alloc_def)
  have "lookup ?s2 (Suc (length s)) = Some (Tab (zeros shp))"
    by (simp add: lookup_def nth_append)
  with count_cases_st_frame[OF c] have f: "length s' = length ?s2"
    "\<forall>a. a \<noteq> Suc (length s) \<longrightarrow> s' ! a = ?s2 ! a" "\<forall>t. r = Inr t \<longrightarrow> t = Suc (length s)"
    "\<exists>T. lookup s' (Suc (length s)) = Some (Tab T)" by blast+
  have "take (length s) s' = s"
    by (rule frame_after_alloc[OF f(1,2)]) simp_all
  moreover have "fresh_table s s' r"
    using f(3,4) by (cases r) (auto simp: fresh_table_def)
  ultimately show ?thesis by (simp add: preserved_def)
next
  case False
  with assms have "s' = s \<and> (\<exists>e. r = Inl e)"
    by (auto simp: process_case_form_st_def split: option.splits array.splits if_splits)
  then show ?thesis by auto
qed

lemma process_frequency_form_st_frame:
  assumes "process_frequency_form_st dt data shp s = (r, s')"
  shows "preserved s s' \<and> fresh_table s s' r"
proof (cases "\<exists>d. lookup s data = Some (Num d) \<and> ndim d = 2 \<and> shape d ! 1 = length shp + 1")
  case True
  then obtain d where d: "lookup s data = Some (Num d)" "ndim d = 2"
    "shape d ! 1 = length shp + 1" by blast
  let ?s2 = "s @ [Num (map_array (minus_one dt) (but_last_column d))] @ [Tab (zeros shp)]"
  from assms d have c: "fill_cells_st dt (length s) data (Suc (length s)) [0..<shape d ! 0] ?s2
      = (r, s')"
    by (simp add: process_frequency_form_st_def alloc_def)
  have "lookup ?s2 (Suc (length s)) = Some (Tab (zeros shp))"
    by (simp add: lookup_def nth_append)
  with fill_cells_st_frame[OF c] have f: "length s' = length ?s2"
    "\<forall>a. a \<noteq> Suc (length s) \<longrightarrow> s' ! a = ?s2 ! a" "\<forall>t. r = Inr t \<longrightarrow> t = Suc (length s)"
    "\<exists>T. lookup s' (Suc (length s)) = Some (Tab T)" by blast+
  have "take (length s) s' = s"
    by (rule frame_after_alloc[OF f(1,2)]) simp_all
  moreover have "fresh_table s s' r"
    using f(3,4) by (cases r) (auto simp: fresh_table_def)
  ultimately show ?thesis by (simp add: preserved_def)
next
  case False
  with assms have "s' = s \<and> (\<exists>e. r = Inl e)"
    by (auto simp: process_frequency_form_st_def split: option.splits array.splits if_splits)
  then show ?thesis by auto
qed

lemma process_table_form_st_frame:
  assumes "process_table_form_st dt data shp s = (r, s')"
  shows "preserved s s' \<and> fresh_table s s' r"
  using assms
  by (auto simp: process_table_form_st_def alloc_def preserved_def fresh_table_def lookup_def
      split: option.splits array.splits if_splits)

lemma apply_category_mapping_st_frame:
  assumes "apply_category_mapping_st fo data cm vl form s = (r, s')"
  shows "preserved s s'"
proof (cases "\<exists>a. lookup s data = Some (Obj a)")
  case True
  then obtain a where a: "lookup s data = Some (Obj a)" by blast
  let ?s1 = "s @ [Obj a]"
  obtain r2 s2 where m: "(if form \<in> set [''case_form'', ''frequency_form'']
      then map_columns_st cm vl data (length s) [0..<n_vars vl (n_cols a)] ?s1
      else (Inr (length s), ?s1)) = (r2, s2)" by (meson surj_pair)
  have f: "length s2 = length ?s1" "\<forall>b. b \<noteq> length s \<longrightarrow> s2 ! b = ?s1 ! b"
    using m map_columns_st_frame[of cm vl data "length s" _ ?s1 r2 s2]
    by (auto split: if_splits)
  have p2: "take (length s) s2 = s"
    by (rule frame_after_alloc[OF f]) simp_all
  from assms a m have "s' = s2 \<or> (\<exists>x. s' = s2 @ [x])"
    by (auto simp: apply_category_mapping_st_def alloc_def Let_def
        split: sum.splits option.splits array.splits if_splits)
  with p2 f(1) show ?thesis by (auto simp: preserved_def)
next
  case False
  with assms have "s' = s"
    by (auto simp: apply_category_mapping_st_def split: option.splits array.splits)
  then show ?thesis by simp
qed

text \<open>
  What the functions on the store return is what the functions on array values
  compute: the table, or array, at the reference returned is the value of the pure
  function on the array at \<open>data\<close>, and an error is the same error.
\<close>

lemma count_cases_st_pure:
  assumes "lookup s data = Some (Num d)" "lookup s table = Some (Tab t)" "data \<noteq> table"
    and "count_cases_st dt data table is s = (r, s')"
  shows "case count_cases dt t (map (item d) is) of Inl e \<Rightarrow> r = Inl e
     | Inr t' \<Rightarrow> r = Inr table \<and> lookup s' table = Some (Tab t')"
  using assms
proof (induction "is" arbitrary: s t)
  case Nil
  then show ?case by simp
next
  case (Cons i "is")
  show ?case
  proof (cases "int_tuple dt (item d i)")
    case (Inl e)
    with Cons.prems show ?thesis by simp
  next
    case idx: (Inr idx)
    show ?thesis
    proof (cases "iadd t idx 1")
      case (Inl e)
      with Cons.prems idx show ?thesis by simp
    next
      case (Inr t')
      let ?s = "s[table := Tab t']"
      from Cons.prems have l: "lookup ?s data = Some (Num d)" "lookup ?s table = Some (Tab t')"
        by (auto simp: lookup_update lookup_Some)
      from Cons.prems idx Inr have "count_cases_st dt data table is ?s = (r, s')" by simp
      from Cons.IH[OF l Cons.prems(3) this] idx Inr show ?thesis by simp
    qed
  qed
qed

lemma fill_cells_st_pure:
  assumes "lookup s cases = Some (Num c)" "lookup s data = Some (Num d)"
    and "lookup s table = Some (Tab t)" "cases \<noteq> table" "data \<noteq> table"
    and "fill_cells_st dt cases data table is s = (r, s')"
  shows "case fill_cells dt t (map (\<lambda>i. (item c i, item (last_column d) i)) is) of
       Inl e \<Rightarrow> r = Inl e
     | Inr t' \<Rightarrow> r = Inr table \<and> lookup s' table = Some (Tab t')"
  using assms
proof (induction "is" arbitrary: s t)
  case Nil
  then show ?case by simp
next
  case (Cons i "is")
  show ?case
  proof (cases "int_tuple dt (item c i)")
    case (Inl e)
    with Cons.prems show ?thesis by simp
  next
    case idx: (Inr idx)
    show ?thesis
    proof (cases "int_of dt (item (last_column d) i)")
      case (Inl e)
      with Cons.prems idx show ?thesis by simp
    next
      case v: (Inr v)
      show ?thesis
      proof (cases "setitem t idx v")
        case (Inl e)
        with Cons.prems idx v show ?thesis by simp
      next
        case (Inr t')
        let ?s = "s[table := Tab t']"
        from Cons.prems have l: "lookup ?s cases = Some (Num c)" "lookup ?s data = Some (Num d)"
          "lookup ?s table = Some (Tab t')"
          by (auto simp: lookup_update lookup_Some)
        from Cons.prems idx v Inr
        have "fill_cells_st dt cases data table is ?s = (r, s')" by simp
        from Cons.IH[OF l Cons.prems(4,5) this] idx v Inr show ?thesis by simp
      qed
    qed
  qed
qed

lemma iter_Cons: "shape a = n # ds \<Longrightarrow> iter a = Inr (map (item a) [0..<n])"
  by (simp add: iter_def)

lemma process_case_form_st_pure:
  assumes "lookup s data = Some (Num d)" "process_case_form_st dt data shp s = (r, s')"
  shows "case process_case_form dt d shp of Inl e \<Rightarrow> r = Inl e
     | Inr T \<Rightarrow> \<exists>t. r = Inr t \<and> lookup s' t = Some (Tab T)"
proof (cases "ndim d = 2 \<and> shape d ! 1 = length shp")
  case True
  then obtain n m where sh: "shape d = [n, m]" using shape_2d by blast
  let ?d' = "map_array (minus_one dt) d"
  let ?s2 = "s @ [Num ?d'] @ [Tab (zeros shp)]"
  have it: "iter ?d' = Inr (map (item ?d') [0..<n])"
    using sh by (simp add: iter_Cons[of _ n "[m]"] map_array_def)
  from assms True sh have c: "count_cases_st dt (length s) (Suc (length s)) [0..<n] ?s2 = (r, s')"
    by (simp add: process_case_form_st_def alloc_def)
  have l: "lookup ?s2 (length s) = Some (Num ?d')"
    "lookup ?s2 (Suc (length s)) = Some (Tab (zeros shp))"
    by (simp_all add: lookup_def nth_append)
  from count_cases_st_pure[OF l _ c]
  have "case count_cases dt (zeros shp) (map (item ?d') [0..<n]) of Inl e \<Rightarrow> r = Inl e
     | Inr t' \<Rightarrow> r = Inr (Suc (length s)) \<and> lookup s' (Suc (length s)) = Some (Tab t')"
    by simp
  moreover have "process_case_form dt d shp = count_cases dt (zeros shp) (map (item ?d') [0..<n])"
    using True it by (simp add: process_case_form_def)
  ultimately show ?thesis by (auto split: sum.splits)
next
  case False
  with assms show ?thesis
    by (auto simp: process_case_form_st_def process_case_form_def)
qed

lemma process_frequency_form_st_pure:
  assumes "lookup s data = Some (Num d)" "process_frequency_form_st dt data shp s = (r, s')"
  shows "case process_frequency_form dt d shp of Inl e \<Rightarrow> r = Inl e
     | Inr T \<Rightarrow> \<exists>t. r = Inr t \<and> lookup s' t = Some (Tab T)"
proof (cases "ndim d = 2 \<and> shape d ! 1 = length shp + 1")
  case True
  then obtain n m where sh: "shape d = [n, m]" using shape_2d by blast
  let ?c = "map_array (minus_one dt) (but_last_column d)"
  let ?s2 = "s @ [Num ?c] @ [Tab (zeros shp)]"
  have it: "iter ?c = Inr (map (item ?c) [0..<n])"
    using sh by (simp add: iter_Cons[of _ n "[m - 1]"] map_array_def but_last_column_def)
  have itf: "iter (last_column d) = Inr (map (item (last_column d)) [0..<n])"
    using sh by (simp add: iter_Cons[of _ n "[]"] last_column_def)
  from assms True sh
  have c: "fill_cells_st dt (length s) data (Suc (length s)) [0..<n] ?s2 = (r, s')"
    by (simp add: process_frequency_form_st_def alloc_def)
  have dl: "data < length s" using assms(1) by (simp add: lookup_Some)
  have l: "lookup ?s2 (length s) = Some (Num ?c)" "lookup ?s2 data = Some (Num d)"
    "lookup ?s2 (Suc (length s)) = Some (Tab (zeros shp))"
    using assms(1) dl by (simp_all add: lookup_def nth_append)
  from fill_cells_st_pure[OF l _ _ c] dl
  have "case fill_cells dt (zeros shp)
          (map (\<lambda>i. (item ?c i, item (last_column d) i)) [0..<n]) of Inl e \<Rightarrow> r = Inl e
     | Inr t' \<Rightarrow> r = Inr (Suc (length s)) \<and> lookup s' (Suc (length s)) = Some (Tab t')"
    by simp
  moreover have "zip (map (item ?c) [0..<n]) (map (item (last_column d)) [0..<n])
      = map (\<lambda>i. (item ?c i, item (last_column d) i)) [0..<n]"
    by (simp add: zip_map_map zip_same_conv_map)
  then have "process_frequency_form dt d shp = fill_cells dt (zeros shp)
          (map (\<lambda>i. (item ?c i, item (last_column d) i)) [0..<n])"
    using True it itf by (simp add: process_frequency_form_def)
  ultimately show ?thesis by (auto split: sum.splits)
next
  case False
  with assms show ?thesis
    by (auto simp: process_frequency_form_st_def process_frequency_form_def)
qed

lemma process_table_form_st_pure:
  assumes "lookup s data = Some (Num d)" "process_table_form_st dt data shp s = (r, s')"
  shows "case process_table_form dt d shp of Inl e \<Rightarrow> r = Inl e
     | Inr T \<Rightarrow> \<exists>t. r = Inr t \<and> lookup s' t = Some (Tab T)"
proof (cases "shape d = shp")
  case True
  with assms have "r = Inr (length s)" "s' = s @ [Tab (map_array (astype_int dt) d)]"
    by (simp_all add: process_table_form_st_def alloc_def)
  moreover have "process_table_form dt d shp = Inr (map_array (astype_int dt) d)"
    using True by (simp add: process_table_form_def)
  ultimately show ?thesis by (simp add: lookup_def)
next
  case False
  with assms have "r = Inl (ValueError (''Table shape '' @ str_tuple (shape d) @ '' doesn''
            @ [CHR 0x27] @ ''t match specified shape '' @ str_tuple shp))"
    by (simp add: process_table_form_st_def)
  moreover have "process_table_form dt d shp
      = Inl (ValueError (''Table shape '' @ str_tuple (shape d) @ '' doesn''
            @ [CHR 0x27] @ ''t match specified shape '' @ str_tuple shp))"
    using False by (simp add: process_table_form_def)
  ultimately show ?thesis by simp
qed

lemma map_columns_st_pure:
  assumes "lookup s data = Some (Obj d)" "lookup s result = Some (Obj r0)" "data \<noteq> result"
    and "map_columns_st cm vl data result is s = (r, s')"
  shows "case map_columns cm vl d r0 is of Inl e \<Rightarrow> r = Inl e
     | Inr R \<Rightarrow> r = Inr result \<and> lookup s' result = Some (Obj R)"
  using assms
proof (induction "is" arbitrary: s r0)
  case Nil
  then show ?case by simp
next
  case (Cons i "is")
  show ?case
  proof (cases "cm (var_name vl i)")
    case None
    with Cons.prems have "map_columns_st cm vl data result is s = (r, s')" by simp
    from Cons.IH[OF Cons.prems(1,2,3) this] None show ?thesis by simp
  next
    case (Some vm)
    show ?thesis
    proof (cases "get_column d i")
      case (Inl e)
      with Cons.prems Some show ?thesis by simp
    next
      case xs: (Inr xs)
      show ?thesis
      proof (cases "set_column r0 i (map (\<lambda>x. map_category x vm) xs)")
        case (Inl e)
        with Cons.prems Some xs show ?thesis by simp
      next
        case (Inr r')
        let ?s = "s[result := Obj r']"
        from Cons.prems have l: "lookup ?s data = Some (Obj d)" "lookup ?s result = Some (Obj r')"
          by (auto simp: lookup_update lookup_Some)
        from Cons.prems Some xs Inr
        have "map_columns_st cm vl data result is ?s = (r, s')" by simp
        from Cons.IH[OF l Cons.prems(3) this] Some xs Inr show ?thesis by simp
      qed
    qed
  qed
qed

lemma apply_category_mapping_st_numeric:
  "lookup s data = Some (Num a) \<Longrightarrow>
     apply_category_mapping_st fo data cm vl form s = (Inr data, s) \<and>
     apply_category_mapping fo (Numeric a) cm vl form = Inr a"
  by (simp add: apply_category_mapping_st_def apply_category_mapping_def)

lemma apply_category_mapping_st_pure:
  assumes "lookup s data = Some (Obj a)"
    and "apply_category_mapping_st fo data cm vl form s = (r, s')"
  shows "case apply_category_mapping fo (Objects a) cm vl form of Inl e \<Rightarrow> r = Inl e
     | Inr f \<Rightarrow> \<exists>t. r = Inr t \<and> length s \<le> t \<and> lookup s' t = Some (Num f)"
proof -
  let ?s1 = "s @ [Obj a]"
  let ?form = "form \<in> set [''case_form'', ''frequency_form'']"
  obtain r2 s2 where m: "(if ?form
      then map_columns_st cm vl data (length s) [0..<n_vars vl (n_cols a)] ?s1
      else (Inr (length s), ?s1)) = (r2, s2)" by (meson surj_pair)
  define p where "p = (if ?form then map_columns cm vl a a [0..<n_vars vl (n_cols a)] else Inr a)"
  have dl: "data < length s" using assms(1) by (simp add: lookup_Some)
  have l: "lookup ?s1 data = Some (Obj a)" "lookup ?s1 (length s) = Some (Obj a)"
    using assms(1) dl by (simp_all add: lookup_def nth_append)
  have rel: "case p of Inl e \<Rightarrow> r2 = Inl e
     | Inr R \<Rightarrow> r2 = Inr (length s) \<and> lookup s2 (length s) = Some (Obj R)"
  proof (cases ?form)
    case True
    with m have "map_columns_st cm vl data (length s) [0..<n_vars vl (n_cols a)] ?s1 = (r2, s2)"
      by simp
    from map_columns_st_pure[OF l _ this] dl True show ?thesis by (simp add: p_def)
  next
    case False
    with m l(2) show ?thesis by (auto simp: p_def)
  qed
  have len: "length s2 = Suc (length s)"
    using m map_columns_st_frame[of cm vl data "length s" _ ?s1 r2 s2]
    by (auto split: if_splits)
  have pure: "apply_category_mapping fo (Objects a) cm vl form =
      (case p of Inl e \<Rightarrow> Inl e
       | Inr result \<Rightarrow> (case astype_float fo result of Inr r \<Rightarrow> Inr r
           | Inl e \<Rightarrow> if is_ValueError e
               then (let bad_values = filter (\<lambda>x. \<not> is_int_or_float x) (objs result)
                     in if bad_values \<noteq> []
                        then Inl (ValueErrorOf ''Could not convert categories to numeric: ''
                          (set (strings bad_values)))
                        else Inl e)
               else Inl e))"
    by (simp add: apply_category_mapping_def p_def)
  have st: "apply_category_mapping_st fo data cm vl form s =
      (case (r2, s2) of (Inl e, s2) \<Rightarrow> (Inl e, s2)
       | (Inr result, s2) \<Rightarrow>
           (case lookup s2 result of
              Some (Obj r) \<Rightarrow>
                (case astype_float fo r of
                   Inr f \<Rightarrow> (let (result', s3) = alloc (Num f) s2 in (Inr result', s3))
                 | Inl e \<Rightarrow>
                     if is_ValueError e
                     then (let bad_values = filter (\<lambda>x. \<not> is_int_or_float x) (objs r)
                           in if bad_values \<noteq> []
                              then (Inl (ValueErrorOf
                                ''Could not convert categories to numeric: ''
                                (set (strings bad_values))), s2)
                              else (Inl e, s2))
                     else (Inl e, s2))
            | _ \<Rightarrow> (Inl TypeError, s2)))"
    using assms(1) m by (simp add: apply_category_mapping_st_def alloc_def)
  show ?thesis
  proof (cases p)
    case (Inl e)
    with rel st assms(2) pure show ?thesis by simp
  next
    case (Inr R)
    with rel have r2: "r2 = Inr (length s)" "lookup s2 (length s) = Some (Obj R)" by simp_all
    show ?thesis
    proof (cases "astype_float fo R")
      case (Inl e)
      with Inr r2 st assms(2) pure show ?thesis
        by (cases "is_ValueError e";
            cases "filter (\<lambda>x. \<not> is_int_or_float x) (objs R) = []") (simp_all add: Let_def)
    next
      case f: (Inr f)
      with Inr r2 st assms(2) have "r = Inr (length s2)" "s' = s2 @ [Num f]"
        by (simp_all add: alloc_def)
      moreover have "(s2 @ [Num f]) ! length s2 = Num f" by (rule nth_append_length)
      ultimately show ?thesis using f Inr pure len by (simp add: lookup_def)
    qed
  qed
qed

lemma apply_category_mapping_st_fresh:
  assumes "apply_category_mapping_st fo data cm vl form s = (r, s')"
  shows "fresh_array s s' data r"
proof (cases "lookup s data")
  case None
  with assms have "r = Inl TypeError" by (simp add: apply_category_mapping_st_def)
  then show ?thesis by (simp add: fresh_array_def)
next
  case (Some x)
  show ?thesis
  proof (cases x)
    case (Num a)
    with Some assms have "r = Inr data" by (simp add: apply_category_mapping_st_def)
    with Some Num show ?thesis by (simp add: fresh_array_def)
  next
    case (Tab a)
    with Some assms have "r = Inr data" by (simp add: apply_category_mapping_st_def)
    with Some Tab show ?thesis by (simp add: fresh_array_def)
  next
    case (Obj a)
    with Some have l: "lookup s data = Some (Obj a)" by simp
    from apply_category_mapping_st_pure[OF l assms] l show ?thesis
      by (cases r; cases "apply_category_mapping fo (Objects a) cm vl form")
        (auto simp: fresh_array_def)
  qed
qed

text \<open>
  C10. A call of \<open>_process_case_form\<close>, \<open>_process_frequency_form\<close>,
  \<open>_process_table_form\<close> or \<open>_apply_category_mapping\<close> leaves every array that
  existed before the call as it was, the input among them, whether it returns or raises;
  the table a converter returns is at a reference that did not exist before the call; and
  so is the array \<open>_apply_category_mapping\<close> returns when it maps, on a copy, an array
  of objects. (An array that is numeric already is not a table and is not mapped: it is
  returned as it is.)
\<close>

theorem converters_leave_input:
  "(process_case_form_st dt data shp s = (r, s') \<longrightarrow> preserved s s' \<and> fresh_table s s' r) \<and>
   (process_frequency_form_st dt data shp s = (r, s')
      \<longrightarrow> preserved s s' \<and> fresh_table s s' r) \<and>
   (process_table_form_st dt data shp s = (r, s') \<longrightarrow> preserved s s' \<and> fresh_table s s' r) \<and>
   (apply_category_mapping_st fo data category_map var_list data_form s = (r, s')
      \<longrightarrow> preserved s s' \<and> fresh_array s s' data r)"
proof -
  have a: "process_case_form_st dt data shp s = (r, s') \<longrightarrow> preserved s s' \<and> fresh_table s s' r"
    using process_case_form_st_frame[of dt data shp s r s'] by (rule impI)
  have b: "process_frequency_form_st dt data shp s = (r, s')
      \<longrightarrow> preserved s s' \<and> fresh_table s s' r"
    using process_frequency_form_st_frame[of dt data shp s r s'] by (rule impI)
  have c: "process_table_form_st dt data shp s = (r, s') \<longrightarrow> preserved s s' \<and> fresh_table s s' r"
    using process_table_form_st_frame[of dt data shp s r s'] by (rule impI)
  have d: "apply_category_mapping_st fo data category_map var_list data_form s = (r, s')
      \<longrightarrow> preserved s s' \<and> fresh_array s s' data r"
    using apply_category_mapping_st_frame[of fo data category_map var_list data_form s r s']
      apply_category_mapping_st_fresh[of fo data category_map var_list data_form s r s']
    by blast
  from a b c d show ?thesis by (intro conjI)
qed

theorem converters_leave_input_witness:
  "process_case_form_st int_dtype 0 [2, 2] [Num \<lparr>shape = [3, 2], elems = [1, 2, 2, 1, 1, 2]\<rparr>]
     = (Inr 2, [Num \<lparr>shape = [3, 2], elems = [1, 2, 2, 1, 1, 2]\<rparr>,
          Num \<lparr>shape = [3, 2], elems = [0, 1, 1, 0, 0, 1]\<rparr>,
          Tab \<lparr>shape = [2, 2], elems = [0, 2, 1, 0]\<rparr>]) \<and>
   preserved [Num \<lparr>shape = [3, 2], elems = [1, 2, 2, 1, 1, 2 :: int]\<rparr>]
     [Num \<lparr>shape = [3, 2], elems = [1, 2, 2, 1, 1, 2]\<rparr>,
      Num \<lparr>shape = [3, 2], elems = [0, 1, 1, 0, 0, 1]\<rparr>,
      Tab \<lparr>shape = [2, 2], elems = [0, 2, 1, 0]\<rparr>] \<and>
   fresh_table [Num \<lparr>shape = [3, 2], elems = [1, 2, 2, 1, 1, 2 :: int]\<rparr>]
     [Num \<lparr>shape = [3, 2], elems = [1, 2, 2, 1, 1, 2]\<rparr>,
      Num \<lparr>shape = [3, 2], elems = [0, 1, 1, 0, 0, 1]\<rparr>,
      Tab \<lparr>shape = [2, 2], elems = [0, 2, 1, 0]\<rparr>] (Inr 2) \<and>
   process_frequency_form_st int_dtype 0 [2] [Num \<lparr>shape = [1, 2], elems = [2, 7]\<rparr>]
     = (Inr 2, [Num \<lparr>shape = [1, 2], elems = [2, 7]\<rparr>, Num \<lparr>shape = [1, 1], elems = [1]\<rparr>,
          Tab \<lparr>shape = [2], elems = [0, 7]\<rparr>]) \<and>
   fresh_table [Num \<lparr>shape = [1, 2], elems = [2, 7 :: int]\<rparr>]
     [Num \<lparr>shape = [1, 2], elems = [2, 7]\<rparr>, Num \<lparr>shape = [1, 1], elems = [1]\<rparr>,
      Tab \<lparr>shape = [2], elems = [0, 7]\<rparr>] (Inr 2) \<and>
   process_table_form_st int_dtype 0 [2] [Num \<lparr>shape = [2], elems = [4, 0]\<rparr>]
     = (Inr 1, [Num \<lparr>shape = [2], elems = [4, 0]\<rparr>, Tab \<lparr>shape = [2], elems = [4, 0]\<rparr>]) \<and>
   fresh_table [Num \<lparr>shape = [2], elems = [4, 0 :: int]\<rparr>]
     [Num \<lparr>shape = [2], elems = [4, 0]\<rparr>, Tab \<lparr>shape = [2], elems = [4, 0]\<rparr>] (Inr 1) \<and>
   apply_category_mapping_st py_float_ops 0 [''0'' \<mapsto> [''a'' \<mapsto> 1]] None ''case_form''
       [Obj \<lparr>n_rows = 1, n_cols = 2, objs = [PyStr '' a '', PyInt 4]\<rparr>]
     = (Inr 2, [Obj \<lparr>n_rows = 1, n_cols = 2, objs = [PyStr '' a '', PyInt 4]\<rparr>,
          Obj \<lparr>n_rows = 1, n_cols = 2, objs = [PyInt 1, PyInt 4]\<rparr>,
          Num \<lparr>shape = [1, 2], elems = [FloatOfInt 1, FloatOfInt 4]\<rparr>]) \<and>
   preserved [Obj \<lparr>n_rows = 1, n_cols = 2, objs = [PyStr '' a '', PyInt 4 :: pyfloat obj]\<rparr>]
     [Obj \<lparr>n_rows = 1, n_cols = 2, objs = [PyStr '' a '', PyInt 4]\<rparr>,
      Obj \<lparr>n_rows = 1, n_cols = 2, objs = [PyInt 1, PyInt 4]\<rparr>,
      Num \<lparr>shape = [1, 2], elems = [FloatOfInt 1, FloatOfInt 4]\<rparr>] \<and>
   fresh_array [Obj \<lparr>n_rows = 1, n_cols = 2, objs = [PyStr '' a '', PyInt 4 :: pyfloat obj]\<rparr>]
     [Obj \<lparr>n_rows = 1, n_cols = 2, objs = [PyStr '' a '', PyInt 4]\<rparr>,
      Obj \<lparr>n_rows = 1, n_cols = 2, objs = [PyInt 1, PyInt 4]\<rparr>,
      Num \<lparr>shape = [1, 2], elems = [FloatOfInt 1, FloatOfInt 4]\<rparr>] 0 (Inr 2)"
proof -
  have a: "process_case_form_st int_dtype 0 [2, 2]
      [Num \<lparr>shape = [3, 2], elems = [1, 2, 2, 1, 1, 2]\<rparr>]
     = (Inr 2, [Num \<lparr>shape = [3, 2], elems = [1, 2, 2, 1, 1, 2]\<rparr>,
          Num \<lparr>shape = [3, 2], elems = [0, 1, 1, 0, 0, 1]\<rparr>,
          Tab \<lparr>shape = [2, 2], elems = [0, 2, 1, 0]\<rparr>])" by code_simp
  have b: "process_frequency_form_st int_dtype 0 [2] [Num \<lparr>shape = [1, 2], elems = [2, 7]\<rparr>]
     = (Inr 2, [Num \<lparr>shape = [1, 2], elems = [2, 7]\<rparr>, Num \<lparr>shape = [1, 1], elems = [1]\<rparr>,
          Tab \<lparr>shape = [2], elems = [0, 7]\<rparr>])" by code_simp
  have c: "process_table_form_st int_dtype 0 [2] [Num \<lparr>shape = [2], elems = [4, 0]\<rparr>]
     = (Inr 1, [Num \<lparr>shape = [2], elems = [4, 0]\<rparr>, Tab \<lparr>shape = [2], elems = [4, 0]\<rparr>])"
    by code_simp
  have d: "apply_category_mapping_st py_float_ops 0 [''0'' \<mapsto> [''a'' \<mapsto> 1]] None ''case_form''
       [Obj \<lparr>n_rows = 1, n_cols = 2, objs = [PyStr '' a '', PyInt 4]\<rparr>]
     = (Inr 2, [Obj \<lparr>n_rows = 1, n_cols = 2, objs = [PyStr '' a '', PyInt 4]\<rparr>,
          Obj \<lparr>n_rows = 1, n_cols = 2, objs = [PyInt 1, PyInt 4]\<rparr>,
          Num \<lparr>shape = [1, 2], elems = [FloatOfInt 1, FloatOfInt 4]\<rparr>])" by code_simp
  note t = converters_leave_input
  from t[of int_dtype 0 "[2, 2]" "[Num \<lparr>shape = [3, 2], elems = [1, 2, 2, 1, 1, 2]\<rparr>]"] a
  have a': "preserved [Num \<lparr>shape = [3, 2], elems = [1, 2, 2, 1, 1, 2 :: int]\<rparr>]
     [Num \<lparr>shape = [3, 2], elems = [1, 2, 2, 1, 1, 2]\<rparr>,
      Num \<lparr>shape = [3, 2], elems = [0, 1, 1, 0, 0, 1]\<rparr>,
      Tab \<lparr>shape = [2, 2], elems = [0, 2, 1, 0]\<rparr>]"
    "fresh_table [Num \<lparr>shape = [3, 2], elems = [1, 2, 2, 1, 1, 2 :: int]\<rparr>]
     [Num \<lparr>shape = [3, 2], elems = [1, 2, 2, 1, 1, 2]\<rparr>,
      Num \<lparr>shape = [3, 2], elems = [0, 1, 1, 0, 0, 1]\<rparr>,
      Tab \<lparr>shape = [2, 2], elems = [0, 2, 1, 0]\<rparr>] (Inr 2)" by blast+
  from t[of int_dtype 0 "[2]" "[Num \<lparr>shape = [1, 2], elems = [2, 7]\<rparr>]"] b
  have b': "fresh_table [Num \<lparr>shape = [1, 2], elems = [2, 7 :: int]\<rparr>]
     [Num \<lparr>shape = [1, 2], elems = [2, 7]\<rparr>, Num \<lparr>shape = [1, 1], elems = [1]\<rparr>,
      Tab \<lparr>shape = [2], elems = [0, 7]\<rparr>] (Inr 2)" by blast
  from t[of int_dtype 0 "[2]" "[Num \<lparr>shape = [2], elems = [4, 0]\<rparr>]"] c
  have c': "fresh_table [Num \<lparr>shape = [2], elems = [4, 0 :: int]\<rparr>]
     [Num \<lparr>shape = [2], elems = [4, 0]\<rparr>, Tab \<lparr>shape = [2], elems = [4, 0]\<rparr>] (Inr 1)" by blast
  from t[of _ 0 _ "[Obj \<lparr>n_rows = 1, n_cols = 2, objs = [PyStr '' a '', PyInt 4]\<rparr>]" _ _
      py_float_ops "[''0'' \<mapsto> [''a'' \<mapsto> 1]]" None "''case_form''"] d
  have d': "preserved [Obj \<lparr>n_rows = 1, n_cols = 2, objs = [PyStr '' a '', PyInt 4 :: pyfloat obj]\<rparr>]
     [Obj \<lparr>n_rows = 1, n_cols = 2, objs = [PyStr '' a '', PyInt 4]\<rparr>,
      Obj \<lparr>n_rows = 1, n_cols = 2, objs = [PyInt 1, PyInt 4]\<rparr>,
      Num \<lparr>shape = [1, 2], elems = [FloatOfInt 1, FloatOfInt 4]\<rparr>]"
    "fresh_array [Obj \<lparr>n_rows = 1, n_cols = 2, objs = [PyStr '' a '', PyInt 4 :: pyfloat obj]\<rparr>]
     [Obj \<lparr>n_rows = 1, n_cols = 2, objs = [PyStr '' a '', PyInt 4]\<rparr>,
      Obj \<lparr>n_rows = 1, n_cols = 2, objs = [PyInt 1, PyInt 4]\<rparr>,
      Num \<lparr>shape = [1, 2], elems = [FloatOfInt 1, FloatOfInt 4]\<rparr>] 0 (Inr 2)" by blast+
  from a b c d a' b' c' d' show ?thesis by (intro conjI)
qed

end
